theory Spec2Isabelle
  imports Main "HOL-Library.Word"
begin

unbundle bit_operations_syntax

section \<open>Machine types\<close>

text \<open>
  The code is compiled for a 64-bit target: \<open>std::size_t\<close>, \<open>uint64_t\<close> and
  \<open>int64_t\<close> are 64-bit words whose arithmetic wraps. A \<open>double\<close> is carried as its
  64-bit pattern: the bus only copies prices and volumes, it never computes with them.
  The processing delay is an \<open>int\<close> that is only stored, clamped and compared, so it is
  an \<open>int\<close> here as well.
\<close>

type_synonym size_t = "64 word"
type_synonym uint64_t = "64 word"
type_synonym int64_t = "64 word"
type_synonym double = "64 word"

section \<open>ring\_buffer.hpp: the lock-free ring buffer\<close>

text \<open>
  \<open>RingBuffer<T, Size>\<close>: the slot array \<open>buffer_\<close> (read through \<open>get(index)\<close>) and the
  two indices. The template parameter \<open>Size\<close> is the first argument of every operation;
  the \<open>static_assert\<close> of the class demands that it is a power of two.
  The model is sequential: one call runs to its end before the next starts, which is
  what the single-producer, single-consumer contract gives at the granularity of calls.
\<close>

record 'a RingBuffer =
  buffer :: "size_t \<Rightarrow> 'a"
  read_index :: size_t
  write_index :: size_t

definition Size_ok :: "size_t \<Rightarrow> bool" where
  "Size_ok Size \<longleftrightarrow> 0 < Size \<and> Size AND (Size - 1) = 0"

text \<open>The constructor sets both indices to 0; the slots keep what the memory holds.\<close>

definition RingBuffer_new :: "(size_t \<Rightarrow> 'a) \<Rightarrow> 'a RingBuffer" where
  "RingBuffer_new mem = \<lparr>buffer = mem, read_index = 0, write_index = 0\<rparr>"

definition write_rb :: "size_t \<Rightarrow> 'a \<Rightarrow> 'a RingBuffer \<Rightarrow> bool \<times> 'a RingBuffer" where
  "write_rb Size item rb =
     (let next_write = (write_index rb + 1) AND (Size - 1) in
      if next_write = read_index rb then (False, rb)
      else (True, rb\<lparr>buffer := (buffer rb)(write_index rb := item),
                      write_index := next_write\<rparr>))"

text \<open>
  \<open>read(T& item)\<close>: the second argument is the caller's \<open>item\<close> before the call, the
  second component of the result is \<open>item\<close> after it. Destroying the slot in place
  leaves its bytes as they are.
\<close>

definition read_rb :: "size_t \<Rightarrow> 'a \<Rightarrow> 'a RingBuffer \<Rightarrow> bool \<times> 'a \<times> 'a RingBuffer" where
  "read_rb Size item rb =
     (if read_index rb = write_index rb then (False, item, rb)
      else (True, buffer rb (read_index rb),
            rb\<lparr>read_index := (read_index rb + 1) AND (Size - 1)\<rparr>))"

definition size_rb :: "size_t \<Rightarrow> 'a RingBuffer \<Rightarrow> size_t" where
  "size_rb Size rb = (write_index rb - read_index rb) AND (Size - 1)"

definition capacity :: "size_t \<Rightarrow> 'a RingBuffer \<Rightarrow> size_t" where
  "capacity Size rb = Size - 1"

definition is_full :: "size_t \<Rightarrow> 'a RingBuffer \<Rightarrow> bool" where
  "is_full Size rb \<longleftrightarrow> size_rb Size rb = capacity Size rb"

definition is_empty :: "size_t \<Rightarrow> 'a RingBuffer \<Rightarrow> bool" where
  "is_empty Size rb \<longleftrightarrow> read_index rb = write_index rb"

definition get_read_index :: "'a RingBuffer \<Rightarrow> size_t" where
  "get_read_index rb = read_index rb"

definition get_write_index :: "'a RingBuffer \<Rightarrow> size_t" where
  "get_write_index rb = write_index rb"


section \<open>message\_bus.hpp: ticks, envelopes and the bus\<close>

text \<open>
  \<open>MarketData\<close>: \<open>symbol\<close> is a \<open>char[16]\<close> and \<open>source\<close> a \<open>char[32]\<close>, kept as the
  list of their bytes. A producer may fill them to the last byte, so a field need not
  contain a terminating null.
\<close>

record MarketData =
  symbol :: "char list"
  price :: double
  volume :: double
  seq :: uint64_t
  timestamp :: int64_t
  source :: "char list"

datatype MessageType = MARKET_DATA

text \<open>\<open>MessageWrapper\<close>: the tag and the union, whose only member is \<open>market_data\<close>.\<close>

record MessageWrapper =
  type :: MessageType
  market_data :: MarketData

definition NUL :: char where
  "NUL = CHR 0x00"

text \<open>The default constructor: the tag, and \<open>memset(&data, 0, sizeof(data))\<close>.\<close>

definition MessageWrapper_new :: MessageWrapper where
  "MessageWrapper_new =
     \<lparr>type = MARKET_DATA,
      market_data = \<lparr>symbol = replicate 16 NUL, price = 0, volume = 0, seq = 0,
                     timestamp = 0, source = replicate 32 NUL\<rparr>\<rparr>"

text \<open>
  \<open>strncpy(dest, src, n)\<close> writes exactly \<open>n\<close> bytes to \<open>dest\<close>: the bytes of \<open>src\<close> up to
  its first null, at most \<open>n\<close> of them, then nulls. \<open>strncpy src n\<close> is those \<open>n\<close> bytes.
  Both call sites copy into a \<open>char[sz]\<close> with \<open>n = sz - 1\<close> and then store a null in
  the last byte, which determines all \<open>sz\<close> bytes of the destination: \<open>copy_chars\<close>.
  The source arrays have \<open>sz\<close> bytes too, so the copy never reads past their end.
\<close>

definition strncpy :: "char list \<Rightarrow> nat \<Rightarrow> char list" where
  "strncpy src n =
     (let s = take n (takeWhile (\<lambda>c. c \<noteq> NUL) src) in s @ replicate (n - length s) NUL)"

definition copy_chars :: "nat \<Rightarrow> char list \<Rightarrow> char list" where
  "copy_chars sz src = strncpy src (sz - 1) @ [NUL]"

text \<open>
  A subscriber is a \<open>std::function<void(const MarketData&)>\<close>. What it does is outside
  the bus: it acts on a world \<open>'w\<close> (counters of a test, the queue of a session) and
  either returns, throws an exception derived from \<open>std::exception\<close>, or throws a value
  of another type. Subscribers that call back into the bus are outside this model.
\<close>

datatype cb_outcome = Returned | Threw_std_exception string | Threw_other

type_synonym 'w callback = "MarketData \<Rightarrow> 'w \<Rightarrow> cb_outcome \<times> 'w"

record 'w MessageBus =
  ring_buffer :: "MessageWrapper RingBuffer"
  subscribers :: "string \<rightharpoonup> 'w callback list"
  published_count :: uint64_t
  processed_count :: uint64_t
  dropped_count :: uint64_t
  processing_delay_ms :: int
  sequence :: uint64_t

definition DEFAULT_RING_BUFFER_SIZE :: size_t where
  "DEFAULT_RING_BUFFER_SIZE = 1024"

text \<open>
  The constructor places the ring buffer in the shared memory that \<open>SharedMemory\<close> has
  just filled with zeros; every counter starts at 0 and there is no subscriber. A
  constructor that throws leaves no bus behind and is not modelled.
\<close>

definition MessageBus_new :: "'w MessageBus" where
  "MessageBus_new =
     \<lparr>ring_buffer = RingBuffer_new (\<lambda>_. MessageWrapper_new),
      subscribers = Map.empty,
      published_count = 0, processed_count = 0, dropped_count = 0,
      processing_delay_ms = 0, sequence = 0\<rparr>"

text \<open>The envelope that \<open>publish\<close> builds from the caller's tick and the new sequence number.\<close>

definition envelope :: "MarketData \<Rightarrow> uint64_t \<Rightarrow> MessageWrapper" where
  "envelope data s =
     \<lparr>type = MARKET_DATA,
      market_data = \<lparr>symbol = copy_chars 16 (symbol data),
                     price = price data,
                     volume = volume data,
                     seq = s,
                     timestamp = timestamp data,
                     source = copy_chars 32 (source data)\<rparr>\<rparr>"

text \<open>
  \<open>publish\<close>: \<open>sequence_.fetch_add(1) + 1\<close> comes before the write. Nothing in the body
  throws, so the \<open>catch\<close> branch is never taken; messages to \<open>std::cerr\<close> are not modelled.
\<close>

definition publish :: "string \<Rightarrow> MarketData \<Rightarrow> 'w MessageBus \<Rightarrow> bool \<times> 'w MessageBus" where
  "publish topic data bus =
     (let wrapper = envelope data (sequence bus + 1);
          bus1 = bus\<lparr>sequence := sequence bus + 1\<rparr>;
          (ok, rb) = write_rb DEFAULT_RING_BUFFER_SIZE wrapper (ring_buffer bus1);
          bus2 = bus1\<lparr>ring_buffer := rb\<rparr>
      in if \<not> ok then (False, bus2\<lparr>dropped_count := dropped_count bus2 + 1\<rparr>)
         else (True, bus2\<lparr>published_count := published_count bus2 + 1\<rparr>))"

text \<open>The overload without a topic.\<close>

definition publish_default :: "MarketData \<Rightarrow> 'w MessageBus \<Rightarrow> bool \<times> 'w MessageBus" where
  "publish_default data bus = publish ''market_data'' data bus"

text \<open>
  \<open>subscribers_[topic].push_back(callback)\<close>: a missing topic starts with no callback.
  The overload for a callback on a pointer wraps it and registers it under
  \<open>"market_data"\<close>; with a type other than \<open>MarketData\<close> neither overload does anything.
\<close>

definition subscribe :: "string \<Rightarrow> 'w callback \<Rightarrow> 'w MessageBus \<Rightarrow> 'w MessageBus" where
  "subscribe topic callback bus =
     bus\<lparr>subscribers := (subscribers bus)
       (topic \<mapsto> (case subscribers bus topic of None \<Rightarrow> [] | Some cbs \<Rightarrow> cbs) @ [callback])\<rparr>"

definition get_size :: "'w MessageBus \<Rightarrow> size_t" where
  "get_size bus = size_rb DEFAULT_RING_BUFFER_SIZE (ring_buffer bus)"

definition get_capacity :: "'w MessageBus \<Rightarrow> size_t" where
  "get_capacity bus = capacity DEFAULT_RING_BUFFER_SIZE (ring_buffer bus)"

definition get_published_count :: "'w MessageBus \<Rightarrow> uint64_t" where
  "get_published_count bus = published_count bus"

definition get_processed_count :: "'w MessageBus \<Rightarrow> uint64_t" where
  "get_processed_count bus = processed_count bus"

definition get_dropped_count :: "'w MessageBus \<Rightarrow> uint64_t" where
  "get_dropped_count bus = dropped_count bus"

definition get_processing_delay_ms :: "'w MessageBus \<Rightarrow> int" where
  "get_processing_delay_ms bus = processing_delay_ms bus"

definition set_processing_delay_ms :: "int \<Rightarrow> 'w MessageBus \<Rightarrow> 'w MessageBus" where
  "set_processing_delay_ms ms bus = bus\<lparr>processing_delay_ms := max 0 ms\<rparr>"

definition reset_counters :: "'w MessageBus \<Rightarrow> 'w MessageBus" where
  "reset_counters bus = bus\<lparr>published_count := 0, processed_count := 0, dropped_count := 0\<rparr>"


section \<open>message\_bus.cpp: the consumer loop\<close>

text \<open>The tick that the loop rebuilds from an envelope before it calls the subscribers.\<close>

definition tick_of :: "MessageWrapper \<Rightarrow> MarketData" where
  "tick_of wrapper =
     \<lparr>symbol = copy_chars 16 (symbol (market_data wrapper)),
      price = price (market_data wrapper),
      volume = volume (market_data wrapper),
      seq = seq (market_data wrapper),
      timestamp = timestamp (market_data wrapper),
      source = copy_chars 32 (source (market_data wrapper))\<rparr>"

text \<open>
  The \<open>for\<close> loop over the callbacks of a topic. The handler at the call is
  \<open>catch (const std::exception& e)\<close>: it ends an exception of that family and the
  loop goes on with the next callback; a thrown value of another type has no handler
  there and leaves the loop (\<open>Inl\<close>, with the world as the callbacks left it).
\<close>

fun notify :: "'w callback list \<Rightarrow> MarketData \<Rightarrow> 'w \<Rightarrow> 'w + 'w" where
  "notify [] data w = Inr w"
| "notify (callback # rest) data w =
     (case callback data w of
        (Returned, w') \<Rightarrow> notify rest data w'
      | (Threw_std_exception what, w') \<Rightarrow> notify rest data w'
      | (Threw_other, w') \<Rightarrow> Inl w')"

text \<open>
  One pass through the body of \<open>while (should_continue)\<close>. It ends normally with the
  bus and the world after it, the tick it handed to the subscribers (if it read one)
  and the argument of its \<open>sleep_for\<close> (if it slept). The outer handler is for
  \<open>std::exception\<close> as well and nothing outside the callbacks throws one, so a value
  that \<open>notify\<close> lets through leaves \<open>process_messages\<close> altogether: \<open>Inl\<close>, with the
  bus and the world at that moment.
\<close>

record 'w iteration =
  bus_after :: "'w MessageBus"
  world_after :: 'w
  delivered :: "MarketData option"
  slept :: "int option"

definition process_iteration ::
  "'w MessageBus \<Rightarrow> 'w \<Rightarrow> ('w MessageBus \<times> 'w) + 'w iteration" where
  "process_iteration bus w =
     (let (ok, wrapper, rb) =
            read_rb DEFAULT_RING_BUFFER_SIZE MessageWrapper_new (ring_buffer bus);
          bus1 = bus\<lparr>ring_buffer := rb\<rparr>;
          delay = processing_delay_ms bus1;
          sleep = (if delay > 0 then Some delay else None)
      in if ok then
           if type wrapper = MARKET_DATA then
             let data = tick_of wrapper;
                 cbs = (case subscribers bus1 ''market_data'' of
                          None \<Rightarrow> [] | Some cbs \<Rightarrow> cbs)
             in case notify cbs data w of
                  Inl w' \<Rightarrow> Inl (bus1, w')
                | Inr w' \<Rightarrow>
                    Inr \<lparr>bus_after = bus1\<lparr>processed_count := processed_count bus1 + 1\<rparr>,
                         world_after = w', delivered = Some data, slept = sleep\<rparr>
           else Inr \<lparr>bus_after = bus1, world_after = w, delivered = None, slept = sleep\<rparr>
         else Inr \<lparr>bus_after = bus1, world_after = w, delivered = None, slept = sleep\<rparr>)"

text \<open>
  \<open>process_messages\<close>: the first argument lists what the successive loads of
  \<open>should_continue\<close> return; the loop is left at the first \<open>False\<close>. \<open>None\<close> means that
  every listed load was \<open>True\<close>: the loop is still running. The result collects the
  sleeps of the iterations in order.
\<close>

fun process_messages ::
  "bool list \<Rightarrow> 'w MessageBus \<Rightarrow> 'w \<Rightarrow>
     (('w MessageBus \<times> 'w) + ('w MessageBus \<times> 'w \<times> int list)) option" where
  "process_messages [] bus w = None"
| "process_messages (should_continue # later) bus w =
     (if should_continue then
        case process_iteration bus w of
          Inl e \<Rightarrow> Some (Inl e)
        | Inr r \<Rightarrow>
            (case process_messages later (bus_after r) (world_after r) of
               None \<Rightarrow> None
             | Some (Inl e) \<Rightarrow> Some (Inl e)
             | Some (Inr (bus', w', sleeps)) \<Rightarrow>
                 Some (Inr (bus', w', (case slept r of None \<Rightarrow> [] | Some d \<Rightarrow> [d]) @ sleeps)))
      else Some (Inr (bus, w, [])))"

section \<open>Runs of one producer and one consumer\<close>

text \<open>
  A run is a sequence of calls on one bus, each finished before the next starts:
  publishes of the producer, passes of the consumer loop, registrations and changes of
  the delay. The system records beside the bus and the world the envelopes of the
  publishes that returned \<open>true\<close> (\<open>accepted\<close>) and the ticks that the consumer loop read
  (\<open>consumed\<close>), both in call order. When a thrown value leaves \<open>process_messages\<close> the
  consumer thread has no handler for it and the process ends: the run has no state
  after that.
\<close>

datatype 'w op =
    Publish string MarketData
  | Iterate
  | Subscribe string "'w callback"
  | Set_processing_delay_ms int

record 'w system =
  bus :: "'w MessageBus"
  world :: 'w
  accepted :: "MessageWrapper list"
  consumed :: "MarketData list"

datatype fault = Terminated

definition system_new :: "'w \<Rightarrow> 'w system" where
  "system_new w = \<lparr>bus = MessageBus_new, world = w, accepted = [], consumed = []\<rparr>"

fun step :: "'w op \<Rightarrow> 'w system \<Rightarrow> fault + 'w system" where
  "step (Publish topic data) s =
     (let (ok, bus') = publish topic data (bus s) in
      Inr (s\<lparr>bus := bus',
              accepted := accepted s @
                (if ok then [envelope data (sequence (bus s) + 1)] else [])\<rparr>))"
| "step Iterate s =
     (case process_iteration (bus s) (world s) of
        Inl e \<Rightarrow> Inl Terminated
      | Inr r \<Rightarrow>
          Inr (s\<lparr>bus := bus_after r, world := world_after r,
                  consumed := consumed s @
                    (case delivered r of None \<Rightarrow> [] | Some data \<Rightarrow> [data])\<rparr>))"
| "step (Subscribe topic callback) s = Inr (s\<lparr>bus := subscribe topic callback (bus s)\<rparr>)"
| "step (Set_processing_delay_ms ms) s = Inr (s\<lparr>bus := set_processing_delay_ms ms (bus s)\<rparr>)"

fun run :: "'w op list \<Rightarrow> 'w system \<Rightarrow> fault + 'w system" where
  "run [] s = Inr s"
| "run (x # xs) s = (case step x s of Inl e \<Rightarrow> Inl e | Inr s' \<Rightarrow> run xs s')"

fun is_Publish :: "'w op \<Rightarrow> bool" where
  "is_Publish (Publish topic data) = True"
| "is_Publish _ = False"


section \<open>Notions used in the statements\<close>

text \<open>
  The states a ring buffer can be in: the constructor's, and whatever \<open>write\<close> and
  \<open>read\<close> make of one.
\<close>

inductive reachable :: "size_t \<Rightarrow> 'a RingBuffer \<Rightarrow> bool" for Size :: size_t where
  by_new: "reachable Size (RingBuffer_new mem)"
| by_write: "reachable Size rb \<Longrightarrow> reachable Size (snd (write_rb Size item rb))"
| by_read: "reachable Size rb \<Longrightarrow> reachable Size (snd (snd (read_rb Size item rb)))"

text \<open>Both indices stay below \<open>Size\<close>.\<close>

definition rb_inv :: "size_t \<Rightarrow> 'a RingBuffer \<Rightarrow> bool" where
  "rb_inv Size rb \<longleftrightarrow> read_index rb < Size \<and> write_index rb < Size"

text \<open>The queue a ring buffer holds: its live slots from the read index on, oldest first.\<close>

definition rb_items :: "size_t \<Rightarrow> 'a RingBuffer \<Rightarrow> 'a list" where
  "rb_items Size rb =
     map (\<lambda>i. buffer rb ((read_index rb + word_of_nat i) AND (Size - 1)))
       [0..<unat (size_rb Size rb)]"

text \<open>The C string in a character array: its bytes before the first null.\<close>

definition c_str :: "char list \<Rightarrow> char list" where
  "c_str a = takeWhile (\<lambda>c. c \<noteq> NUL) a"


text \<open>The indices of the bus's ring buffer are in range.\<close>

definition bus_inv :: "'w MessageBus \<Rightarrow> bool" where
  "bus_inv b \<longleftrightarrow> rb_inv DEFAULT_RING_BUFFER_SIZE (ring_buffer b)"

text \<open>The envelopes waiting in the bus, oldest first.\<close>

definition pending :: "'w MessageBus \<Rightarrow> MessageWrapper list" where
  "pending b = rb_items DEFAULT_RING_BUFFER_SIZE (ring_buffer b)"

text \<open>The sleep that ends a pass of the consumer loop over bus \<open>b\<close>.\<close>

definition sleep_of :: "'w MessageBus \<Rightarrow> int option" where
  "sleep_of b = (if processing_delay_ms b > 0 then Some (processing_delay_ms b) else None)"

text \<open>The callbacks registered under the fixed topic, in registration order.\<close>

definition market_data_subscribers :: "'w MessageBus \<Rightarrow> 'w callback list" where
  "market_data_subscribers b =
     (case subscribers b ''market_data'' of None \<Rightarrow> [] | Some cbs \<Rightarrow> cbs)"

text \<open>Passes of the consumer loop in a run.\<close>

fun is_Iterate :: "'w op \<Rightarrow> bool" where
  "is_Iterate Iterate = True"
| "is_Iterate _ = False"

text \<open>The counters agree with the number of envelopes waiting.\<close>

definition balanced :: "'w MessageBus \<Rightarrow> bool" where
  "balanced b \<longleftrightarrow> processed_count b + get_size b = published_count b"

text \<open>What was read, then what waits, is what was accepted.\<close>

definition fifo :: "'w system \<Rightarrow> bool" where
  "fifo s \<longleftrightarrow> consumed s @ map tick_of (pending (bus s)) = map tick_of (accepted s)"

text \<open>
  The accepted envelopes carry increasing sequence numbers, none above the counter.
\<close>

definition seqs_ok :: "'w system \<Rightarrow> bool" where
  "seqs_ok s \<longleftrightarrow>
     sorted_wrt (<) (map (\<lambda>e. unat (seq (market_data e))) (accepted s))
   \<and> (\<forall>e \<in> set (accepted s). unat (seq (market_data e)) \<le> unat (sequence (bus s)))"

text \<open>
  A callback that never throws a value outside \<open>std::exception\<close>; a call that registers
  only such callbacks; a bus whose subscribers under the fixed topic are all of this kind.
\<close>

definition safe_callback :: "'w callback \<Rightarrow> bool" where
  "safe_callback cb \<longleftrightarrow> (\<forall>data w. fst (cb data w) \<noteq> Threw_other)"

fun safe_op :: "'w op \<Rightarrow> bool" where
  "safe_op (Subscribe topic callback) = safe_callback callback"
| "safe_op _ = True"

definition safe_bus :: "'w MessageBus \<Rightarrow> bool" where
  "safe_bus b \<longleftrightarrow> (\<forall>cb \<in> set (market_data_subscribers b). safe_callback cb)"

text \<open>
  The accepted envelopes carry, as 64-bit values, the increasing call numbers \<open>ks\<close> of
  their publishes, none above \<open>n\<close>.
\<close>

definition numbered :: "nat \<Rightarrow> 'w system \<Rightarrow> nat list \<Rightarrow> bool" where
  "numbered n s ks \<longleftrightarrow>
     sorted_wrt (<) ks \<and> (\<forall>k \<in> set ks. 0 < k \<and> k \<le> n)
   \<and> map (\<lambda>e. seq (market_data e)) (accepted s) = map word_of_nat ks"

text \<open>
  Tick \<open>t\<close> is the caller's tick \<open>d\<close>, published by call number \<open>k\<close>: price, volume
  and timestamp are the caller's, the sequence number is \<open>k\<close> as a 64-bit value, and
  each character array holds the caller's string, cut to the array's size less one and
  padded with nulls.
\<close>

definition carries :: "MarketData \<Rightarrow> nat \<Rightarrow> MarketData \<Rightarrow> bool" where
  "carries d k t \<longleftrightarrow>
     price t = price d \<and> volume t = volume d \<and> timestamp t = timestamp d
   \<and> seq t = word_of_nat k
   \<and> symbol t = take 15 (c_str (symbol d)) @ replicate (16 - length (take 15 (c_str (symbol d)))) NUL
   \<and> source t = take 31 (c_str (source d)) @ replicate (32 - length (take 31 (c_str (source d)))) NUL"

text \<open>
  The ticks the caller handed over in the publishes of a run that returned true, oldest
  first, each with the number of its call among the publishes so far, the first of
  which is call \<open>n + 1\<close>.
\<close>

fun published_ticks :: "nat \<Rightarrow> 'w op list \<Rightarrow> 'w system \<Rightarrow> (MarketData \<times> nat) list" where
  "published_ticks n [] s = []"
| "published_ticks n (x # xs) s =
     (case step x s of
        Inl e \<Rightarrow> []
      | Inr s' \<Rightarrow>
          (case x of
             Publish topic data \<Rightarrow>
               if fst (publish topic data (bus s)) then [(data, Suc n)] else []
           | _ \<Rightarrow> [])
          @ published_ticks (if is_Publish x then Suc n else n) xs s')"

section \<open>Sample inputs\<close>

text \<open>A tick whose strings fit their fields, and one that fills both arrays without a null.\<close>

definition tick1 :: MarketData where
  "tick1 = \<lparr>symbol = ''TEST'' @ replicate 12 NUL, price = 100, volume = 1000, seq = 0,
            timestamp = 17, source = ''feed'' @ replicate 28 NUL\<rparr>"

definition tick2 :: MarketData where
  "tick2 = \<lparr>symbol = ''ABCDEFGHIJKLMNOP'', price = 101, volume = 2000, seq = 0,
            timestamp = 18, source = ''0123456789abcdef0123456789abcdef''\<rparr>"

text \<open>
  A bus with a full ring buffer: the write index is one slot behind the read index.
\<close>

definition full_bus :: "unit MessageBus" where
  "full_bus = MessageBus_new\<lparr>ring_buffer :=
     \<lparr>buffer = (\<lambda>_. MessageWrapper_new), read_index = 1, write_index = 0\<rparr>\<rparr>"

text \<open>
  Subscribers that append their name and the tick's sequence number to a log and then
  return, throw a \<open>std::runtime_error\<close>, or throw a value that is no \<open>std::exception\<close>.
\<close>

definition cb_log :: "string \<Rightarrow> (string \<times> uint64_t) list callback" where
  "cb_log name data w = (Returned, w @ [(name, seq data)])"

definition cb_throw :: "string \<Rightarrow> (string \<times> uint64_t) list callback" where
  "cb_throw name data w = (Threw_std_exception ''Test exception'', w @ [(name, seq data)])"

definition cb_throw_other :: "string \<Rightarrow> (string \<times> uint64_t) list callback" where
  "cb_throw_other name data w = (Threw_other, w @ [(name, seq data)])"

text \<open>
  Two buses holding one published tick: on the first the subscribers are one that
  throws a value outside \<open>std::exception\<close> and a logger; on the second a logger, one that
  throws a \<open>std::runtime_error\<close>, and another logger.
\<close>

definition throwing_bus :: "(string \<times> uint64_t) list MessageBus" where
  "throwing_bus =
     snd (publish ''market_data'' tick1
       (subscribe ''market_data'' (cb_log ''B'')
         (subscribe ''market_data'' (cb_throw_other ''X'') MessageBus_new)))"

definition three_bus :: "(string \<times> uint64_t) list MessageBus" where
  "three_bus =
     snd (publish ''market_data'' tick1
       (subscribe ''market_data'' (cb_log ''B'')
         (subscribe ''market_data'' (cb_throw ''T'')
           (subscribe ''market_data'' (cb_log ''A'') MessageBus_new))))"

text \<open>
  A bus holding two published ticks, whose one subscriber throws a value outside
  \<open>std::exception\<close>.
\<close>

definition stranded_bus :: "(string \<times> uint64_t) list MessageBus" where
  "stranded_bus =
     snd (publish ''market_data'' tick2
       (snd (publish ''market_data'' tick1
         (subscribe ''market_data'' (cb_throw_other ''X'') MessageBus_new))))"

section \<open>Arithmetic of the indices\<close>

text \<open>A size that passes the \<open>static_assert\<close> is a power of two.\<close>

lemma pow2_nat: "0 < (x::nat) \<Longrightarrow> x AND (x - 1) = 0 \<Longrightarrow> \<exists>k. x = 2 ^ k"
proof (induction x rule: less_induct)
  case (less x)
  show ?case
  proof (cases "even x")
    case True
    then obtain y where y: "x = 2 * y" by (elim evenE)
    with less.prems have y0: "0 < y" by simp
    have "x - 1 = 2 * (y - 1) + 1" using y y0 by simp
    then have "x AND (x - 1) = 2 * (y AND (y - 1))"
      using y by (subst and_rec) simp
    with less.prems have "y AND (y - 1) = 0" by simp
    moreover have "y < x" using y y0 by simp
    ultimately obtain j where "y = 2 ^ j" using less.IH y0 by blast
    then have "x = 2 ^ Suc j" using y by simp
    then show ?thesis by blast
  next
    case False
    then obtain y where y: "x = 2 * y + 1" by (elim oddE)
    then have "x AND (x - 1) = 2 * y"
      by (subst and_rec) simp
    with less.prems have "y = 0" by simp
    then have "x = 2 ^ 0" using y by simp
    then show ?thesis by blast
  qed
qed

lemma Size_ok_pow2:
  assumes "Size_ok Size"
  shows "\<exists>k<64. Size = 2 ^ k"
proof -
  from assms have pos: "Size \<noteq> 0" and z: "Size AND (Size - 1) = 0"
    by (auto simp: Size_ok_def)
  have "unat (Size AND (Size - 1)) = unat Size AND (unat Size - 1)"
    using pos by (simp add: unsigned_and_eq unat_minus_one)
  with z have "unat Size AND (unat Size - 1) = 0" by simp
  moreover have "0 < unat Size" using pos by (simp add: unat_gt_0)
  ultimately obtain k where k: "unat Size = 2 ^ k" using pow2_nat by blast
  have "unat Size < 2 ^ LENGTH(64)" by (rule unsigned_less)
  with k have "(2::nat) ^ k < 2 ^ LENGTH(64)" by simp
  then have "k < LENGTH(64)" by (rule power_less_imp_less_exp [rotated]) simp
  then have "k < 64" by simp
  moreover have "Size = word_of_nat (unat Size)" by simp
  then have "Size = 2 ^ k" by (simp only: k of_nat_power of_nat_numeral)
  ultimately show ?thesis by blast
qed

lemma uint_and_Size:
  fixes x :: size_t
  assumes "k < 64"
  shows "uint (x AND (2 ^ k - 1)) = uint x mod 2 ^ k"
proof -
  have "x AND (2 ^ k - 1) = take_bit k x"
    by (simp add: take_bit_eq_mask mask_eq_exp_minus_1)
  then have "uint (x AND (2 ^ k - 1)) = take_bit k (uint x)"
    by (simp only: unsigned_take_bit_eq)
  then show ?thesis
    by (simp only: take_bit_eq_mod)
qed

lemma dvd_2p64: "k < 64 \<Longrightarrow> (2::int) ^ k dvd 2 ^ 64"
  by (rule le_imp_power_dvd) simp

lemma uint_succ_and:
  fixes w :: size_t
  assumes "k < 64"
  shows "uint ((w + 1) AND (2 ^ k - 1)) = (uint w + 1) mod 2 ^ k"
  using assms dvd_2p64 [OF assms]
  by (simp add: uint_and_Size uint_word_ariths mod_mod_cancel)

lemma uint_diff_and:
  fixes w r :: size_t
  assumes "k < 64"
  shows "uint ((w - r) AND (2 ^ k - 1)) = (uint w - uint r) mod 2 ^ k"
  using assms dvd_2p64 [OF assms]
  by (simp add: uint_and_Size uint_word_ariths mod_mod_cancel)

lemma uint_add_nat_and:
  fixes r :: size_t
  assumes "k < 64"
  shows "uint ((r + word_of_nat i) AND (2 ^ k - 1)) = (uint r + int i) mod 2 ^ k"
proof -
  have "uint (word_of_nat i :: size_t) = int i mod 2 ^ 64"
    by (simp add: unsigned_of_nat take_bit_eq_mod zmod_int)
  then have "uint (r + word_of_nat i) = (uint r + int i) mod 2 ^ 64"
    by (simp add: uint_word_ariths mod_add_right_eq)
  then show ?thesis
    using assms dvd_2p64 [OF assms] by (simp add: uint_and_Size mod_mod_cancel)
qed


lemma mod_succ_int:
  fixes W N :: int
  assumes "0 \<le> W" "W < N"
  shows "(W + 1) mod N = (if W + 1 = N then 0 else W + 1)"
  using assms by (simp add: mod_pos_pos_trivial)

lemma mod_diff_int:
  fixes W R N :: int
  assumes "0 \<le> W" "W < N" "0 \<le> R" "R < N"
  shows "(W - R) mod N = (if R \<le> W then W - R else W - R + N)"
proof (cases "R \<le> W")
  case True
  with assms show ?thesis by (simp add: mod_pos_pos_trivial)
next
  case False
  have "(W - R) mod N = (W - R + N) mod N" by simp
  also have "\<dots> = W - R + N" using False assms by (intro mod_pos_pos_trivial) auto
  finally show ?thesis using False by simp
qed

lemma uint_2p64:
  assumes "k < 64"
  shows "uint (2 ^ k :: size_t) = 2 ^ k"
proof -
  have lt: "(2::int) ^ k < 2 ^ 64"
    by (rule power_strict_increasing) (use assms in simp_all)
  have "uint (2 ^ k :: size_t) = uint (word_of_int (2 ^ k) :: size_t)"
    by (simp only: word_of_int_2p)
  also have "\<dots> = 2 ^ k mod 2 ^ LENGTH(64)"
    by (simp only: uint_word_of_int)
  also have "\<dots> = 2 ^ k"
    using lt by (simp add: mod_pos_pos_trivial)
  finally show ?thesis .
qed

lemma uint_lt_Size:
  fixes x :: size_t
  shows "k < 64 \<Longrightarrow> x < 2 ^ k \<longleftrightarrow> uint x < 2 ^ k"
  by (simp add: word_less_def uint_2p64)

lemma and_Size_lt:
  fixes x :: size_t
  assumes "k < 64"
  shows "x AND (2 ^ k - 1) < 2 ^ k"
  using assms by (simp add: uint_lt_Size uint_and_Size)


lemma uint_Size_minus_1:
  assumes "k < 64"
  shows "uint (2 ^ k - 1 :: size_t) = 2 ^ k - 1"
proof -
  have "(2::int) ^ k < 2 ^ 64"
    by (rule power_strict_increasing) (use assms in simp_all)
  then have "((2::int) ^ k - 1) mod 2 ^ 64 = 2 ^ k - 1"
    by (intro mod_pos_pos_trivial) auto
  then show ?thesis
    using assms by (simp add: uint_word_ariths uint_2p64)
qed

lemma uint_size_rb:
  assumes "k < 64"
  shows "uint (size_rb (2 ^ k) rb) = (uint (write_index rb) - uint (read_index rb)) mod 2 ^ k"
  using assms by (simp add: size_rb_def uint_diff_and)

lemma rb_inv_uint:
  assumes "k < 64"
  shows "rb_inv (2 ^ k) rb \<longleftrightarrow> uint (read_index rb) < 2 ^ k \<and> uint (write_index rb) < 2 ^ k"
  using assms by (simp add: rb_inv_def uint_lt_Size)

lemma full_int:
  fixes W R N :: int
  assumes "0 \<le> W" "W < N" "0 \<le> R" "R < N"
  shows "(W + 1) mod N = R \<longleftrightarrow> (W - R) mod N = N - 1"
  using assms by (auto simp: mod_succ_int mod_diff_int)

lemma write_full_iff:
  assumes k: "k < 64" and inv: "rb_inv (2 ^ k) rb"
  shows "(write_index rb + 1) AND (2 ^ k - 1) = read_index rb \<longleftrightarrow> is_full (2 ^ k) rb"
proof -
  let ?W = "uint (write_index rb)" and ?R = "uint (read_index rb)"
  from inv k have b: "?W < 2 ^ k" "?R < 2 ^ k" by (simp_all add: rb_inv_uint)
  have "(write_index rb + 1) AND (2 ^ k - 1) = read_index rb
          \<longleftrightarrow> (?W + 1) mod 2 ^ k = ?R"
    using k by (simp add: word_uint_eq_iff uint_succ_and)
  also have "\<dots> \<longleftrightarrow> (?W - ?R) mod 2 ^ k = 2 ^ k - 1"
    using b by (intro full_int) simp_all
  also have "\<dots> \<longleftrightarrow> is_full (2 ^ k) rb"
    using k by (simp add: is_full_def capacity_def word_uint_eq_iff uint_size_rb uint_Size_minus_1)
  finally show ?thesis .
qed

lemma empty_int:
  fixes W R N :: int
  assumes "0 \<le> W" "W < N" "0 \<le> R" "R < N"
  shows "(W - R) mod N = 0 \<longleftrightarrow> R = W"
  using assms by (auto simp: mod_diff_int)

lemma is_empty_iff_size:
  assumes k: "k < 64" and inv: "rb_inv (2 ^ k) rb"
  shows "is_empty (2 ^ k) rb \<longleftrightarrow> size_rb (2 ^ k) rb = 0"
proof -
  let ?W = "uint (write_index rb)" and ?R = "uint (read_index rb)"
  from inv k have b: "?W < 2 ^ k" "?R < 2 ^ k" by (simp_all add: rb_inv_uint)
  have "size_rb (2 ^ k) rb = 0 \<longleftrightarrow> (?W - ?R) mod 2 ^ k = 0"
    using k by (simp add: word_uint_eq_iff uint_size_rb)
  also have "\<dots> \<longleftrightarrow> ?R = ?W"
    using b by (intro empty_int) simp_all
  also have "\<dots> \<longleftrightarrow> is_empty (2 ^ k) rb"
    by (simp add: is_empty_def word_uint_eq_iff)
  finally show ?thesis by simp
qed


lemma write_rb_full:
  assumes "k < 64" "rb_inv (2 ^ k) rb" "is_full (2 ^ k) rb"
  shows "write_rb (2 ^ k) x rb = (False, rb)"
  using assms write_full_iff [of k rb] by (simp add: write_rb_def)

lemma write_rb_not_full:
  assumes "k < 64" "rb_inv (2 ^ k) rb" "\<not> is_full (2 ^ k) rb"
  shows "write_rb (2 ^ k) x rb =
           (True, rb\<lparr>buffer := (buffer rb)(write_index rb := x),
                      write_index := (write_index rb + 1) AND (2 ^ k - 1)\<rparr>)"
  using assms write_full_iff [of k rb] by (simp add: write_rb_def Let_def)

lemma write_rb_inv:
  assumes "k < 64" "rb_inv (2 ^ k) rb"
  shows "rb_inv (2 ^ k) (snd (write_rb (2 ^ k) x rb))"
  using assms by (simp add: write_rb_def Let_def rb_inv_def and_Size_lt)

lemma read_rb_inv:
  assumes "k < 64" "rb_inv (2 ^ k) rb"
  shows "rb_inv (2 ^ k) (snd (snd (read_rb (2 ^ k) d rb)))"
  using assms by (simp add: read_rb_def rb_inv_def and_Size_lt)

lemma size_succ_int:
  fixes W R N :: int
  assumes "0 \<le> W" "W < N" "0 \<le> R" "R < N" "(W - R) mod N \<noteq> N - 1"
  shows "((W + 1) mod N - R) mod N = (W - R) mod N + 1"
proof -
  have "((W + 1) mod N - R) mod N = ((W - R) + 1) mod N"
    by (simp add: mod_diff_left_eq algebra_simps)
  also have "\<dots> = ((W - R) mod N + 1) mod N"
    by (simp add: mod_add_left_eq)
  also have "\<dots> = (W - R) mod N + 1"
    using assms by (intro mod_pos_pos_trivial) (auto simp: mod_diff_int split: if_splits)
  finally show ?thesis .
qed

lemma write_rb_size:
  assumes k: "k < 64" and inv: "rb_inv (2 ^ k) rb" and nf: "\<not> is_full (2 ^ k) rb"
  shows "size_rb (2 ^ k) (snd (write_rb (2 ^ k) x rb)) = size_rb (2 ^ k) rb + 1"
    and "unat (size_rb (2 ^ k) (snd (write_rb (2 ^ k) x rb))) = Suc (unat (size_rb (2 ^ k) rb))"
proof -
  let ?W = "uint (write_index rb)" and ?R = "uint (read_index rb)"
  let ?rb' = "snd (write_rb (2 ^ k) x rb)"
  from inv k have b: "?W < 2 ^ k" "?R < 2 ^ k" by (simp_all add: rb_inv_uint)
  from nf k have "(?W - ?R) mod 2 ^ k \<noteq> 2 ^ k - 1"
    by (simp add: is_full_def capacity_def word_uint_eq_iff uint_size_rb uint_Size_minus_1)
  with b have "((?W + 1) mod 2 ^ k - ?R) mod 2 ^ k = (?W - ?R) mod 2 ^ k + 1"
    by (intro size_succ_int) simp_all
  moreover have "write_index ?rb' = (write_index rb + 1) AND (2 ^ k - 1)"
    and "read_index ?rb' = read_index rb"
    by (simp_all add: write_rb_not_full [OF k inv nf])
  ultimately have u: "uint (size_rb (2 ^ k) ?rb') = uint (size_rb (2 ^ k) rb) + 1"
    by (simp only: uint_size_rb [OF k] uint_succ_and [OF k])
  have "nat (uint (size_rb (2 ^ k) ?rb')) = Suc (nat (uint (size_rb (2 ^ k) rb)))"
    unfolding u by (simp add: nat_add_distrib)
  then show "unat (size_rb (2 ^ k) ?rb') = Suc (unat (size_rb (2 ^ k) rb))"
    by (simp only: unat_eq_nat_uint)
  then have "size_rb (2 ^ k) ?rb' = word_of_nat (Suc (unat (size_rb (2 ^ k) rb)))"
    by (metis of_nat_unat ucast_id)
  then show "size_rb (2 ^ k) ?rb' = size_rb (2 ^ k) rb + 1"
    by simp
qed


lemma idx_last_int:
  fixes W R N :: int
  assumes "0 \<le> W" "W < N"
  shows "(R + (W - R) mod N) mod N = W"
proof -
  have "(R + (W - R) mod N) mod N = (R + (W - R)) mod N"
    by (simp only: mod_add_right_eq)
  also have "\<dots> = W" using assms by (simp add: mod_pos_pos_trivial)
  finally show ?thesis .
qed

lemma idx_neq_int:
  fixes R S N i :: int
  assumes "0 \<le> i" "i < S" "S < N" "(R + i) mod N = (R + S) mod N"
  shows False
proof -
  from assms(4) have "N dvd (R + S) - (R + i)"
    by (metis mod_eq_dvd_iff)
  then have "N dvd S - i" by simp
  moreover have "0 < S - i" "S - i < N" using assms by auto
  ultimately show False using zdvd_not_zless by blast
qed

lemma write_rb_items:
  assumes k: "k < 64" and inv: "rb_inv (2 ^ k) rb" and nf: "\<not> is_full (2 ^ k) rb"
  shows "rb_items (2 ^ k) (snd (write_rb (2 ^ k) x rb)) = rb_items (2 ^ k) rb @ [x]"
proof -
  let ?W = "uint (write_index rb)" and ?R = "uint (read_index rb)"
  let ?rb' = "snd (write_rb (2 ^ k) x rb)"
  let ?n = "unat (size_rb (2 ^ k) rb)"
  let ?idx = "\<lambda>i. (read_index rb + word_of_nat i) AND (2 ^ k - 1)"
  from inv k have b: "?W < 2 ^ k" "?R < 2 ^ k" by (simp_all add: rb_inv_uint)
  have f: "buffer ?rb' = (buffer rb)(write_index rb := x)" "read_index ?rb' = read_index rb"
    by (simp_all add: write_rb_not_full [OF k inv nf])
  have n: "int ?n = (?W - ?R) mod 2 ^ k"
    using uint_size_rb [OF k, of rb] by simp
  then have nlt: "int ?n < 2 ^ k" by simp
  have last: "?idx ?n = write_index rb"
  proof -
    have "uint (?idx ?n) = (?R + (?W - ?R) mod 2 ^ k) mod 2 ^ k"
      by (simp only: uint_add_nat_and [OF k] n)
    also have "\<dots> = ?W" using b by (intro idx_last_int) simp_all
    finally show ?thesis by (simp only: word_uint_eq_iff)
  qed
  have other: "?idx i \<noteq> write_index rb" if "i < ?n" for i
  proof
    assume "?idx i = write_index rb"
    with last have "uint (?idx i) = uint (?idx ?n)" by simp
    then have eq: "(?R + int i) mod 2 ^ k = (?R + int ?n) mod 2 ^ k"
      by (simp only: uint_add_nat_and [OF k])
    from that have il: "int i < int ?n" by (simp only: of_nat_less_iff)
    show False by (rule idx_neq_int [OF _ il nlt eq]) simp
  qed
  have "rb_items (2 ^ k) ?rb' = map (\<lambda>i. buffer ?rb' (?idx i)) [0..<Suc ?n]"
    by (simp only: rb_items_def f write_rb_size(2) [OF k inv nf])
  also have "\<dots> = map (\<lambda>i. buffer ?rb' (?idx i)) [0..<?n] @ [buffer ?rb' (?idx ?n)]"
    by simp
  also have "map (\<lambda>i. buffer ?rb' (?idx i)) [0..<?n] = map (\<lambda>i. buffer rb (?idx i)) [0..<?n]"
    using other by (simp add: f)
  also have "buffer ?rb' (?idx ?n) = x"
    by (simp only: last f fun_upd_same)
  finally show ?thesis by (simp only: rb_items_def)
qed


lemma read_rb_empty:
  assumes "is_empty Size rb"
  shows "read_rb Size d rb = (False, d, rb)"
  using assms by (simp add: read_rb_def is_empty_def)

lemma read_rb_not_empty:
  assumes "\<not> is_empty Size rb"
  shows "read_rb Size d rb =
           (True, buffer rb (read_index rb),
            rb\<lparr>read_index := (read_index rb + 1) AND (Size - 1)\<rparr>)"
  using assms by (simp add: read_rb_def is_empty_def)

lemma size_pred_int:
  fixes W R N :: int
  assumes "0 \<le> W" "W < N" "0 \<le> R" "R < N" "R \<noteq> W"
  shows "(W - (R + 1) mod N) mod N + 1 = (W - R) mod N"
proof -
  have pos: "0 < (W - R) mod N" using assms by (auto simp: mod_diff_int)
  have "(W - (R + 1) mod N) mod N = ((W - R) - 1) mod N"
    by (simp add: mod_diff_right_eq algebra_simps)
  also have "\<dots> = ((W - R) mod N - 1) mod N"
    by (simp add: mod_diff_left_eq)
  also have "\<dots> = (W - R) mod N - 1"
    using assms pos by (intro mod_pos_pos_trivial) (auto simp: mod_diff_int split: if_splits)
  finally show ?thesis by simp
qed

lemma read_rb_size:
  assumes k: "k < 64" and inv: "rb_inv (2 ^ k) rb" and ne: "\<not> is_empty (2 ^ k) rb"
  shows "size_rb (2 ^ k) (snd (snd (read_rb (2 ^ k) d rb))) + 1 = size_rb (2 ^ k) rb"
    and "Suc (unat (size_rb (2 ^ k) (snd (snd (read_rb (2 ^ k) d rb))))) = unat (size_rb (2 ^ k) rb)"
proof -
  let ?W = "uint (write_index rb)" and ?R = "uint (read_index rb)"
  let ?rb' = "snd (snd (read_rb (2 ^ k) d rb))"
  from inv k have b: "?W < 2 ^ k" "?R < 2 ^ k" by (simp_all add: rb_inv_uint)
  from ne have "?R \<noteq> ?W" by (simp add: is_empty_def word_uint_eq_iff)
  with b have "(?W - (?R + 1) mod 2 ^ k) mod 2 ^ k + 1 = (?W - ?R) mod 2 ^ k"
    by (intro size_pred_int) simp_all
  moreover have "read_index ?rb' = (read_index rb + 1) AND (2 ^ k - 1)"
    and "write_index ?rb' = write_index rb"
    by (simp_all add: read_rb_not_empty [OF ne])
  ultimately have u: "uint (size_rb (2 ^ k) ?rb') + 1 = uint (size_rb (2 ^ k) rb)"
    by (simp only: uint_size_rb [OF k] uint_succ_and [OF k])
  have "Suc (nat (uint (size_rb (2 ^ k) ?rb'))) = nat (uint (size_rb (2 ^ k) rb))"
    unfolding u [symmetric] by (simp add: nat_add_distrib)
  then show *: "Suc (unat (size_rb (2 ^ k) ?rb')) = unat (size_rb (2 ^ k) rb)"
    by (simp only: unat_eq_nat_uint)
  have "size_rb (2 ^ k) rb = word_of_nat (unat (size_rb (2 ^ k) rb))"
    by simp
  also have "\<dots> = word_of_nat (Suc (unat (size_rb (2 ^ k) ?rb')))"
    by (simp only: *)
  finally show "size_rb (2 ^ k) ?rb' + 1 = size_rb (2 ^ k) rb"
    by simp
qed

lemma read_rb_items:
  assumes k: "k < 64" and inv: "rb_inv (2 ^ k) rb" and ne: "\<not> is_empty (2 ^ k) rb"
  shows "rb_items (2 ^ k) rb =
           fst (snd (read_rb (2 ^ k) d rb)) # rb_items (2 ^ k) (snd (snd (read_rb (2 ^ k) d rb)))"
proof -
  let ?R = "uint (read_index rb)"
  let ?rb' = "snd (snd (read_rb (2 ^ k) d rb))"
  let ?n' = "unat (size_rb (2 ^ k) ?rb')"
  let ?idx = "\<lambda>i. (read_index rb + word_of_nat i) AND (2 ^ k - 1)"
  let ?idx' = "\<lambda>i. (read_index ?rb' + word_of_nat i) AND (2 ^ k - 1)"
  from inv k have b: "?R < 2 ^ k" by (simp add: rb_inv_uint)
  have f: "buffer ?rb' = buffer rb" "read_index ?rb' = (read_index rb + 1) AND (2 ^ k - 1)"
    "fst (snd (read_rb (2 ^ k) d rb)) = buffer rb (read_index rb)"
    by (simp_all add: read_rb_not_empty [OF ne])
  have first: "?idx 0 = read_index rb"
  proof -
    have "uint (?idx 0) = ?R mod 2 ^ k"
      using uint_add_nat_and [OF k, of "read_index rb" 0] by simp
    also have "\<dots> = ?R" using b by (simp add: mod_pos_pos_trivial)
    finally show ?thesis by (simp only: word_uint_eq_iff)
  qed
  have shift: "?idx (Suc i) = ?idx' i" for i
  proof -
    have "uint (?idx' i) = ((?R + 1) mod 2 ^ k + int i) mod 2 ^ k"
      by (simp only: f uint_add_nat_and [OF k] uint_succ_and [OF k])
    also have "\<dots> = ((?R + 1) + int i) mod 2 ^ k"
      by (simp only: mod_add_left_eq)
    also have "\<dots> = (?R + int (Suc i)) mod 2 ^ k"
      by (simp add: algebra_simps)
    also have "\<dots> = uint (?idx (Suc i))"
      by (simp only: uint_add_nat_and [OF k])
    finally show ?thesis by (simp only: word_uint_eq_iff)
  qed
  have "rb_items (2 ^ k) rb = map (\<lambda>i. buffer rb (?idx i)) [0..<Suc ?n']"
    by (simp only: rb_items_def read_rb_size(2) [OF k inv ne])
  also have "\<dots> = buffer rb (?idx 0) # map (\<lambda>i. buffer rb (?idx (Suc i))) [0..<?n']"
    by (simp only: upt_conv_Cons [OF zero_less_Suc] list.map map_Suc_upt [symmetric] map_map o_def)
  also have "\<dots> = buffer rb (read_index rb) # map (\<lambda>i. buffer ?rb' (?idx' i)) [0..<?n']"
    by (simp only: first shift f(1))
  finally show ?thesis by (simp only: rb_items_def f(3))
qed

lemma rb_items_length: "length (rb_items Size rb) = unat (size_rb Size rb)"
  by (simp add: rb_items_def)

lemma rb_items_empty:
  assumes "k < 64" "rb_inv (2 ^ k) rb" "is_empty (2 ^ k) rb"
  shows "rb_items (2 ^ k) rb = []"
  using assms is_empty_iff_size [of k rb] by (simp add: rb_items_def)

lemma rb_inv_new: "k < 64 \<Longrightarrow> rb_inv (2 ^ k) (RingBuffer_new mem)"
  by (simp add: rb_inv_def RingBuffer_new_def uint_lt_Size)

lemma rb_inv_reachable:
  assumes "Size_ok Size" and "reachable Size rb"
  shows "rb_inv Size rb"
proof -
  from assms(1) obtain k where k: "k < 64" "Size = 2 ^ k"
    using Size_ok_pow2 by blast
  from assms(2) show ?thesis
    unfolding k(2)
    by (induction rule: reachable.induct)
      (simp_all add: rb_inv_new write_rb_inv read_rb_inv k(1))
qed

section \<open>The ring buffer\<close>

text \<open>
  Claim C5. For a ring buffer whose \<open>Size\<close> is a power of two, in every state reached
  from the constructor by writes and reads: \<open>size()\<close> is the write index minus the read
  index modulo \<open>Size\<close>, \<open>capacity()\<close> is \<open>Size - 1\<close>, \<open>is_full()\<close> holds exactly when
  \<open>size()\<close> equals \<open>capacity()\<close>, \<open>is_empty()\<close> exactly when \<open>size()\<close> is 0, and with a
  capacity of at least 1 the buffer is never full and empty at once.
\<close>

theorem ring_buffer_observers:
  assumes "Size_ok Size" and "reachable Size rb"
  shows "uint (size_rb Size rb) = (uint (write_index rb) - uint (read_index rb)) mod uint Size
       \<and> capacity Size rb = Size - 1
       \<and> (is_full Size rb \<longleftrightarrow> size_rb Size rb = capacity Size rb)
       \<and> (is_empty Size rb \<longleftrightarrow> size_rb Size rb = 0)
       \<and> (1 \<le> capacity Size rb \<longrightarrow> \<not> (is_full Size rb \<and> is_empty Size rb))"
proof -
  from assms(1) obtain k where k: "k < 64" "Size = 2 ^ k"
    using Size_ok_pow2 by blast
  have inv: "rb_inv (2 ^ k) rb"
    using rb_inv_reachable [OF assms] by (simp only: k(2))
  have size: "uint (size_rb Size rb) = (uint (write_index rb) - uint (read_index rb)) mod uint Size"
    by (simp only: k(2) uint_size_rb [OF k(1)] uint_2p64 [OF k(1)])
  have empty: "is_empty Size rb \<longleftrightarrow> size_rb Size rb = 0"
    using is_empty_iff_size [OF k(1) inv] by (simp only: k(2))
  have both: "\<not> (is_full Size rb \<and> is_empty Size rb)" if "1 \<le> capacity Size rb"
  proof
    assume "is_full Size rb \<and> is_empty Size rb"
    with empty have "capacity Size rb = 0" by (simp add: is_full_def)
    with that show False by simp
  qed
  from size empty both show ?thesis
    by (simp add: capacity_def is_full_def)
qed

text \<open>An instance: capacity 7, one item written.\<close>

theorem ring_buffer_observers_witness:
  "Size_ok 8 \<and> reachable 8 (snd (write_rb 8 (7::nat) (RingBuffer_new (\<lambda>_. 0))))
   \<and> size_rb 8 (snd (write_rb 8 (7::nat) (RingBuffer_new (\<lambda>_. 0)))) = 1
   \<and> capacity 8 (snd (write_rb 8 (7::nat) (RingBuffer_new (\<lambda>_. 0)))) = 7
   \<and> \<not> is_full 8 (snd (write_rb 8 (7::nat) (RingBuffer_new (\<lambda>_. 0))))
   \<and> \<not> is_empty 8 (snd (write_rb 8 (7::nat) (RingBuffer_new (\<lambda>_. 0))))"
proof -
  let ?rb = "snd (write_rb 8 (7::nat) (RingBuffer_new (\<lambda>_. 0)))"
  have ok: "Size_ok 8" by (simp add: Size_ok_def)
  have re: "reachable 8 ?rb" by (intro reachable.intros)
  have idx: "write_index ?rb = 1" "read_index ?rb = 0"
    by (simp_all add: write_rb_def RingBuffer_new_def)
  from ring_buffer_observers [OF ok re] idx
  have "uint (size_rb 8 ?rb) = 1 \<and> capacity 8 ?rb = 7
        \<and> (is_full 8 ?rb \<longleftrightarrow> size_rb 8 ?rb = capacity 8 ?rb)
        \<and> (is_empty 8 ?rb \<longleftrightarrow> size_rb 8 ?rb = 0)"
    by simp
  then have "size_rb 8 ?rb = 1 \<and> capacity 8 ?rb = 7 \<and> \<not> is_full 8 ?rb \<and> \<not> is_empty 8 ?rb"
    by (auto simp: word_uint_eq_iff)
  with ok re show ?thesis by simp
qed


text \<open>
  Claim C4. In every state, \<open>write(item)\<close> computes the candidate next write index. If
  it equals the read index, \<open>write\<close> returns false and leaves the indices and every
  slot as they were; otherwise it returns true, the slot at the old write index holds
  \<open>item\<close>, every other slot and the read index are as before, and the write index is
  the candidate. In a reachable state of a buffer with a valid \<open>Size\<close> the candidate
  equals the read index exactly when the buffer is full.
\<close>

theorem write_rb_contract:
  "(let next_write = (write_index rb + 1) AND (Size - 1);
        result = write_rb Size item rb
    in (next_write = read_index rb \<longrightarrow> result = (False, rb))
     \<and> (next_write \<noteq> read_index rb \<longrightarrow>
          fst result = True
        \<and> read_index (snd result) = read_index rb
        \<and> write_index (snd result) = next_write
        \<and> buffer (snd result) = (buffer rb)(write_index rb := item)))
   \<and> (Size_ok Size \<and> reachable Size rb \<longrightarrow>
        ((write_index rb + 1) AND (Size - 1) = read_index rb \<longleftrightarrow> is_full Size rb))"
proof -
  have "(write_index rb + 1) AND (Size - 1) = read_index rb \<longleftrightarrow> is_full Size rb"
    if "Size_ok Size" and "reachable Size rb"
  proof -
    from that(1) obtain k where k: "k < 64" "Size = 2 ^ k"
      using Size_ok_pow2 by blast
    have "rb_inv (2 ^ k) rb"
      using rb_inv_reachable [OF that] by (simp only: k(2))
    from write_full_iff [OF k(1) this] show ?thesis by (simp only: k(2))
  qed
  then show ?thesis
    by (simp add: write_rb_def Let_def)
qed

text \<open>An instance: capacity 1; the first write succeeds and fills the buffer, the second fails.\<close>

theorem write_rb_contract_witness:
  "Size_ok 2
   \<and> reachable 2 (RingBuffer_new (\<lambda>_. 0::nat))
   \<and> write_rb 2 (5::nat) (RingBuffer_new (\<lambda>_. 0)) =
       (True, \<lparr>buffer = (\<lambda>_. 0)(0 := 5), read_index = 0, write_index = 1\<rparr>)
   \<and> \<not> is_full 2 (RingBuffer_new (\<lambda>_. 0::nat))
   \<and> reachable 2 \<lparr>buffer = (\<lambda>_. 0::nat)(0 := 5), read_index = 0, write_index = 1\<rparr>
   \<and> write_rb 2 (6::nat) \<lparr>buffer = (\<lambda>_. 0)(0 := 5), read_index = 0, write_index = 1\<rparr> =
       (False, \<lparr>buffer = (\<lambda>_. 0)(0 := 5), read_index = 0, write_index = 1\<rparr>)
   \<and> is_full 2 \<lparr>buffer = (\<lambda>_. 0::nat)(0 := 5), read_index = 0, write_index = 1\<rparr>"
proof -
  let ?rb0 = "RingBuffer_new (\<lambda>_. 0::nat)"
  let ?rb1 = "\<lparr>buffer = (\<lambda>_. 0::nat)(0 := 5), read_index = 0, write_index = 1\<rparr>"
  have ok: "Size_ok 2" by (simp add: Size_ok_def)
  have re0: "reachable 2 ?rb0" by (rule reachable.by_new)
  have w0: "write_rb 2 (5::nat) ?rb0 = (True, ?rb1)"
    using write_rb_contract [of ?rb0 2 5]
    by (simp add: RingBuffer_new_def Let_def prod_eq_iff)
  have "reachable 2 (snd (write_rb 2 (5::nat) ?rb0))" using re0 by (rule reachable.by_write)
  then have re1: "reachable 2 ?rb1" by (simp only: w0 snd_conv)
  have nf0: "\<not> is_full 2 ?rb0"
    using write_rb_contract [of ?rb0 2 5] ok re0 by (simp add: RingBuffer_new_def)
  have w1: "write_rb 2 (6::nat) ?rb1 = (False, ?rb1)"
    using write_rb_contract [of ?rb1 2 6] by (simp add: Let_def)
  have f1: "is_full 2 ?rb1"
    using write_rb_contract [of ?rb1 2 6] ok re1 by simp
  from ok re0 w0 nf0 re1 w1 f1 show ?thesis by simp
qed

section \<open>Character fields\<close>

lemma c_str_no_NUL: "NUL \<notin> set (take n (c_str a))"
proof
  assume "NUL \<in> set (take n (c_str a))"
  then have "NUL \<in> set (takeWhile (\<lambda>c. c \<noteq> NUL) a)"
    unfolding c_str_def by (rule in_set_takeD)
  then show False by (auto dest: set_takeWhileD)
qed

lemma c_str_padded:
  assumes "NUL \<notin> set t" and "0 < m"
  shows "c_str (t @ replicate m NUL) = t"
proof -
  from assms(2) obtain m' where m: "m = Suc m'" by (cases m) auto
  have "takeWhile (\<lambda>c. c \<noteq> NUL) (t @ replicate m NUL)
          = t @ takeWhile (\<lambda>c. c \<noteq> NUL) (replicate m NUL)"
    by (rule takeWhile_append2) (use assms(1) in auto)
  then show ?thesis by (simp add: c_str_def m)
qed

lemma strncpy_c_str:
  "strncpy src n = take n (c_str src) @ replicate (n - length (take n (c_str src))) NUL"
  by (simp add: strncpy_def c_str_def Let_def)

lemma copy_chars_c_str:
  assumes "0 < sz"
  shows "copy_chars sz src =
           take (sz - 1) (c_str src) @ replicate (sz - length (take (sz - 1) (c_str src))) NUL"
proof -
  let ?t = "take (sz - 1) (c_str src)"
  have "length ?t \<le> sz - 1" by simp
  with assms have "sz - length ?t = Suc (sz - 1 - length ?t)" by arith
  then have "replicate (sz - length ?t) NUL = replicate (sz - 1 - length ?t) NUL @ [NUL]"
    by (simp only: replicate_Suc replicate_append_same)
  then show ?thesis by (simp add: copy_chars_def strncpy_c_str)
qed

lemma c_str_copy_chars:
  assumes "0 < sz"
  shows "c_str (copy_chars sz src) = take (sz - 1) (c_str src)"
proof -
  let ?t = "take (sz - 1) (c_str src)"
  have "length ?t \<le> sz - 1" by simp
  with assms have "0 < sz - length ?t" by arith
  then have "c_str (?t @ replicate (sz - length ?t) NUL) = ?t"
    by (rule c_str_padded [OF c_str_no_NUL])
  then show ?thesis
    by (simp only: copy_chars_c_str [OF assms])
qed

lemma length_copy_chars: "0 < sz \<Longrightarrow> length (copy_chars sz src) = sz"
  by (simp add: copy_chars_def strncpy_def Let_def)

lemma last_copy_chars: "last (copy_chars sz src) = NUL"
  by (simp add: copy_chars_def)

lemma copy_chars_idem:
  assumes "0 < sz"
  shows "copy_chars sz (copy_chars sz src) = copy_chars sz src"
proof -
  have "copy_chars sz (copy_chars sz src) =
          take (sz - 1) (take (sz - 1) (c_str src)) @
          replicate (sz - length (take (sz - 1) (take (sz - 1) (c_str src)))) NUL"
    by (simp only: copy_chars_c_str [OF assms, of "copy_chars sz src"] c_str_copy_chars [OF assms])
  also have "\<dots> = copy_chars sz src"
    by (simp only: take_take min.idem copy_chars_c_str [OF assms, of src])
  finally show ?thesis .
qed

text \<open>
  Claim C8. For every tick handed to \<open>publish\<close>, the \<open>symbol\<close> stored in the envelope is
  the input's string cut to at most 15 bytes and padded with nulls to the 16 bytes of
  the field, hence followed by a null; \<open>source\<close> likewise with 31 and 32. The tick
  rebuilt for the subscribers carries the same two fields, and an input string that
  fits is stored unchanged.
\<close>

theorem fields_truncated:
  "symbol (market_data (envelope data s)) =
     take 15 (c_str (symbol data)) @ replicate (16 - length (take 15 (c_str (symbol data)))) NUL
   \<and> source (market_data (envelope data s)) =
     take 31 (c_str (source data)) @ replicate (32 - length (take 31 (c_str (source data)))) NUL
   \<and> length (symbol (market_data (envelope data s))) = 16
   \<and> length (source (market_data (envelope data s))) = 32
   \<and> last (symbol (market_data (envelope data s))) = NUL
   \<and> last (source (market_data (envelope data s))) = NUL
   \<and> c_str (symbol (market_data (envelope data s))) = take 15 (c_str (symbol data))
   \<and> c_str (source (market_data (envelope data s))) = take 31 (c_str (source data))
   \<and> symbol (tick_of (envelope data s)) = symbol (market_data (envelope data s))
   \<and> source (tick_of (envelope data s)) = source (market_data (envelope data s))
   \<and> (length (c_str (symbol data)) \<le> 15 \<longrightarrow>
        c_str (symbol (market_data (envelope data s))) = c_str (symbol data))
   \<and> (length (c_str (source data)) \<le> 31 \<longrightarrow>
        c_str (source (market_data (envelope data s))) = c_str (source data))"
proof -
  have sym: "symbol (market_data (envelope data s)) = copy_chars 16 (symbol data)"
    and src: "source (market_data (envelope data s)) = copy_chars 32 (source data)"
    and sym': "symbol (tick_of (envelope data s)) = copy_chars 16 (copy_chars 16 (symbol data))"
    and src': "source (tick_of (envelope data s)) = copy_chars 32 (copy_chars 32 (source data))"
    by (simp_all add: envelope_def tick_of_def)
  have bytes: "copy_chars 16 (symbol data) =
      take 15 (c_str (symbol data)) @ replicate (16 - length (take 15 (c_str (symbol data)))) NUL"
    "copy_chars 32 (source data) =
      take 31 (c_str (source data)) @ replicate (32 - length (take 31 (c_str (source data)))) NUL"
    using copy_chars_c_str [of 16 "symbol data"] copy_chars_c_str [of 32 "source data"]
    by simp_all
  have str: "c_str (copy_chars 16 (symbol data)) = take 15 (c_str (symbol data))"
    "c_str (copy_chars 32 (source data)) = take 31 (c_str (source data))"
    using c_str_copy_chars [of 16 "symbol data"] c_str_copy_chars [of 32 "source data"]
    by simp_all
  have len: "length (copy_chars 16 (symbol data)) = 16" "length (copy_chars 32 (source data)) = 32"
    by (simp_all add: length_copy_chars)
  have idem: "copy_chars 16 (copy_chars 16 (symbol data)) = copy_chars 16 (symbol data)"
    "copy_chars 32 (copy_chars 32 (source data)) = copy_chars 32 (source data)"
    by (simp_all add: copy_chars_idem)
  have short: "length (c_str (symbol data)) \<le> 15 \<longrightarrow> take 15 (c_str (symbol data)) = c_str (symbol data)"
    "length (c_str (source data)) \<le> 31 \<longrightarrow> take 31 (c_str (source data)) = c_str (source data)"
    by simp_all
  show ?thesis
    unfolding sym src sym' src' idem str len
    by (intro conjI impI) (simp_all only: bytes [symmetric] last_copy_chars take_all)
qed

text \<open>An instance: \<open>tick1\<close> fits; \<open>tick2\<close> fills both arrays and loses its last bytes.\<close>

theorem fields_truncated_witness:
  "length (c_str (symbol tick1)) \<le> 15 \<and> length (c_str (source tick1)) \<le> 31
   \<and> c_str (symbol (market_data (envelope tick1 1))) = ''TEST''
   \<and> c_str (source (market_data (envelope tick1 1))) = ''feed''
   \<and> symbol (tick_of (envelope tick1 1)) = symbol tick1
   \<and> source (tick_of (envelope tick1 1)) = source tick1
   \<and> symbol (market_data (envelope tick2 2)) = ''ABCDEFGHIJKLMNO'' @ [NUL]
   \<and> source (market_data (envelope tick2 2)) = ''0123456789abcdef0123456789abcde'' @ [NUL]"
proof -
  have c1: "c_str (symbol tick1) = ''TEST''" "c_str (source tick1) = ''feed''"
    and c2: "c_str (symbol tick2) = ''ABCDEFGHIJKLMNOP''"
      "c_str (source tick2) = ''0123456789abcdef0123456789abcdef''"
    by (simp_all add: tick1_def tick2_def c_str_def NUL_def)
  have r12: "replicate 12 NUL = [NUL,NUL,NUL,NUL,NUL,NUL,NUL,NUL,NUL,NUL,NUL,NUL]"
    and r28: "replicate 28 NUL = [NUL,NUL,NUL,NUL,NUL,NUL,NUL,NUL,NUL,NUL,NUL,NUL,NUL,NUL,
         NUL,NUL,NUL,NUL,NUL,NUL,NUL,NUL,NUL,NUL,NUL,NUL,NUL,NUL]"
    by (simp_all add: numeral_eq_Suc)
  note A = fields_truncated [of tick1 1, unfolded c1]
  note B = fields_truncated [of tick2 2, unfolded c2]
  have a1: "symbol (market_data (envelope tick1 1)) = ''TEST'' @ replicate 12 NUL"
    and a2: "source (market_data (envelope tick1 1)) = ''feed'' @ replicate 28 NUL"
    and a3: "c_str (symbol (market_data (envelope tick1 1))) = ''TEST''"
    and a4: "c_str (source (market_data (envelope tick1 1))) = ''feed''"
    using A by (simp_all add: c_str_def NUL_def)
  have a5: "symbol (tick_of (envelope tick1 1)) = symbol tick1"
    and a6: "source (tick_of (envelope tick1 1)) = source tick1"
    using A a1 a2 by (simp_all add: tick1_def c_str_def NUL_def)
  have b1: "symbol (market_data (envelope tick2 2)) = ''ABCDEFGHIJKLMNO'' @ [NUL]"
    and b2: "source (market_data (envelope tick2 2)) = ''0123456789abcdef0123456789abcde'' @ [NUL]"
    using B by (simp_all add: c_str_def NUL_def)
  from a3 a4 a5 a6 b1 b2 show ?thesis
    by (simp add: c1)
qed

section \<open>The ring buffer lemmas for a valid size\<close>

lemma rb_inv_new_ok:
  assumes ok: "Size_ok Size"
  shows "rb_inv Size (RingBuffer_new mem)"
proof -
  from ok obtain k where k: "k < 64" and S: "Size = 2 ^ k"
    using Size_ok_pow2 by blast
  show ?thesis unfolding S by (intro rb_inv_new k)
qed

lemma write_rb_inv_ok:
  assumes ok: "Size_ok Size" and "rb_inv Size rb"
  shows "rb_inv Size (snd (write_rb Size x rb))"
proof -
  from ok obtain k where k: "k < 64" and S: "Size = 2 ^ k"
    using Size_ok_pow2 by blast
  show ?thesis
    using assms(2-) unfolding S by (intro write_rb_inv k)
qed

lemma read_rb_inv_ok:
  assumes ok: "Size_ok Size" and "rb_inv Size rb"
  shows "rb_inv Size (snd (snd (read_rb Size d rb)))"
proof -
  from ok obtain k where k: "k < 64" and S: "Size = 2 ^ k"
    using Size_ok_pow2 by blast
  show ?thesis
    using assms(2-) unfolding S by (intro read_rb_inv k)
qed

lemma write_full_iff_ok:
  assumes ok: "Size_ok Size" and "rb_inv Size rb"
  shows "(write_index rb + 1) AND (Size - 1) = read_index rb \<longleftrightarrow> is_full Size rb"
proof -
  from ok obtain k where k: "k < 64" and S: "Size = 2 ^ k"
    using Size_ok_pow2 by blast
  show ?thesis
    using assms(2-) unfolding S by (intro write_full_iff k)
qed

lemma write_rb_fst_ok:
  assumes "Size_ok Size" and "rb_inv Size rb"
  shows "fst (write_rb Size x rb) \<longleftrightarrow> \<not> is_full Size rb"
  using write_full_iff_ok [OF assms] by (simp add: write_rb_def Let_def)

lemma write_rb_full_ok:
  assumes "Size_ok Size" and "rb_inv Size rb" and "is_full Size rb"
  shows "write_rb Size x rb = (False, rb)"
  using write_full_iff_ok [OF assms(1,2)] assms(3) by (simp add: write_rb_def Let_def)

lemma write_rb_size_ok:
  assumes ok: "Size_ok Size" and "rb_inv Size rb" and "\<not> is_full Size rb"
  shows "size_rb Size (snd (write_rb Size x rb)) = size_rb Size rb + 1"
proof -
  from ok obtain k where k: "k < 64" and S: "Size = 2 ^ k"
    using Size_ok_pow2 by blast
  show ?thesis
    using assms(2-) unfolding S by (intro write_rb_size(1) k)
qed

lemma write_rb_items_ok:
  assumes ok: "Size_ok Size" and "rb_inv Size rb" and "\<not> is_full Size rb"
  shows "rb_items Size (snd (write_rb Size x rb)) = rb_items Size rb @ [x]"
proof -
  from ok obtain k where k: "k < 64" and S: "Size = 2 ^ k"
    using Size_ok_pow2 by blast
  show ?thesis
    using assms(2-) unfolding S by (intro write_rb_items k)
qed

lemma read_rb_size_ok:
  assumes ok: "Size_ok Size" and "rb_inv Size rb" and "\<not> is_empty Size rb"
  shows "size_rb Size (snd (snd (read_rb Size d rb))) + 1 = size_rb Size rb"
proof -
  from ok obtain k where k: "k < 64" and S: "Size = 2 ^ k"
    using Size_ok_pow2 by blast
  show ?thesis
    using assms(2-) unfolding S by (intro read_rb_size(1) k)
qed

lemma read_rb_items_ok:
  assumes ok: "Size_ok Size" and "rb_inv Size rb" and "\<not> is_empty Size rb"
  shows "rb_items Size rb = fst (snd (read_rb Size d rb)) # rb_items Size (snd (snd (read_rb Size d rb)))"
proof -
  from ok obtain k where k: "k < 64" and S: "Size = 2 ^ k"
    using Size_ok_pow2 by blast
  show ?thesis
    using assms(2-) unfolding S by (intro read_rb_items k)
qed

lemma rb_items_empty_ok:
  assumes ok: "Size_ok Size" and "rb_inv Size rb" and "is_empty Size rb"
  shows "rb_items Size rb = []"
proof -
  from ok obtain k where k: "k < 64" and S: "Size = 2 ^ k"
    using Size_ok_pow2 by blast
  show ?thesis
    using assms(2-) unfolding S by (intro rb_items_empty k)
qed

lemma is_empty_iff_size_ok:
  assumes ok: "Size_ok Size" and "rb_inv Size rb"
  shows "is_empty Size rb \<longleftrightarrow> size_rb Size rb = 0"
proof -
  from ok obtain k where k: "k < 64" and S: "Size = 2 ^ k"
    using Size_ok_pow2 by blast
  show ?thesis
    using assms(2-) unfolding S by (intro is_empty_iff_size k)
qed

section \<open>The bus, call by call\<close>

lemma DEFAULT_ok: "Size_ok DEFAULT_RING_BUFFER_SIZE"
  by (simp add: DEFAULT_RING_BUFFER_SIZE_def Size_ok_def)

lemma MessageType_only: "(t :: MessageType) = MARKET_DATA"
  by (cases t) simp

lemma bus_inv_new: "bus_inv MessageBus_new"
  by (simp add: bus_inv_def MessageBus_new_def rb_inv_new_ok DEFAULT_ok)

lemma publish_unfold:
  "publish topic data b =
     (if fst (write_rb DEFAULT_RING_BUFFER_SIZE (envelope data (sequence b + 1)) (ring_buffer b))
      then (True, b\<lparr>sequence := sequence b + 1,
                     ring_buffer := snd (write_rb DEFAULT_RING_BUFFER_SIZE
                                          (envelope data (sequence b + 1)) (ring_buffer b)),
                     published_count := published_count b + 1\<rparr>)
      else (False, b\<lparr>sequence := sequence b + 1,
                      ring_buffer := snd (write_rb DEFAULT_RING_BUFFER_SIZE
                                           (envelope data (sequence b + 1)) (ring_buffer b)),
                      dropped_count := dropped_count b + 1\<rparr>))"
  by (simp add: publish_def Let_def split: prod.splits)

lemma publish_full:
  assumes "bus_inv b" and "is_full DEFAULT_RING_BUFFER_SIZE (ring_buffer b)"
  shows "publish topic data b =
           (False, b\<lparr>sequence := sequence b + 1, dropped_count := dropped_count b + 1\<rparr>)"
  using assms unfolding bus_inv_def publish_unfold
  by (simp add: write_rb_full_ok DEFAULT_ok)

lemma publish_not_full:
  assumes "bus_inv b" and "\<not> is_full DEFAULT_RING_BUFFER_SIZE (ring_buffer b)"
  shows "publish topic data b =
           (True, b\<lparr>sequence := sequence b + 1,
                     ring_buffer := snd (write_rb DEFAULT_RING_BUFFER_SIZE
                                          (envelope data (sequence b + 1)) (ring_buffer b)),
                     published_count := published_count b + 1\<rparr>)"
  using assms unfolding bus_inv_def publish_unfold
  by (simp add: write_rb_fst_ok DEFAULT_ok)

lemma publish_bus_inv:
  assumes "bus_inv b"
  shows "bus_inv (snd (publish topic data b))"
  using assms unfolding bus_inv_def publish_unfold
  by (simp add: write_rb_inv_ok DEFAULT_ok)

lemma process_iteration_empty:
  assumes "is_empty DEFAULT_RING_BUFFER_SIZE (ring_buffer b)"
  shows "process_iteration b w =
           Inr \<lparr>bus_after = b, world_after = w, delivered = None, slept = sleep_of b\<rparr>"
  using assms by (simp add: process_iteration_def read_rb_empty sleep_of_def)

lemma process_iteration_not_empty:
  assumes "\<not> is_empty DEFAULT_RING_BUFFER_SIZE (ring_buffer b)"
  shows "process_iteration b w =
           (let rb = ring_buffer b;
                rb' = rb\<lparr>read_index := (read_index rb + 1) AND (DEFAULT_RING_BUFFER_SIZE - 1)\<rparr>;
                data = tick_of (buffer rb (read_index rb))
            in case notify (market_data_subscribers b) data w of
                 Inl w' \<Rightarrow> Inl (b\<lparr>ring_buffer := rb'\<rparr>, w')
               | Inr w' \<Rightarrow>
                   Inr \<lparr>bus_after = b\<lparr>ring_buffer := rb',
                                         processed_count := processed_count b + 1\<rparr>,
                        world_after = w', delivered = Some data, slept = sleep_of b\<rparr>)"
  using assms
  by (simp add: process_iteration_def read_rb_not_empty sleep_of_def Let_def
      market_data_subscribers_def MessageType_only [of "type _"] split: sum.splits)


lemma process_iteration_frame:
  assumes "process_iteration b w = Inr r"
  shows "sequence (bus_after r) = sequence b"
    and "published_count (bus_after r) = published_count b"
    and "dropped_count (bus_after r) = dropped_count b"
    and "subscribers (bus_after r) = subscribers b"
    and "processing_delay_ms (bus_after r) = processing_delay_ms b"
    and "slept r = sleep_of b"
proof -
  show "sequence (bus_after r) = sequence b"
    and "published_count (bus_after r) = published_count b"
    and "dropped_count (bus_after r) = dropped_count b"
    and "subscribers (bus_after r) = subscribers b"
    and "processing_delay_ms (bus_after r) = processing_delay_ms b"
    and "slept r = sleep_of b"
    using assms
    by (cases "is_empty DEFAULT_RING_BUFFER_SIZE (ring_buffer b)";
        auto simp: process_iteration_empty process_iteration_not_empty Let_def
          split: sum.splits)+
qed

section \<open>Publishing\<close>

text \<open>
  Claim C3. Every call of \<open>publish\<close>, whatever its topic, gives the envelope the value
  of the one sequence counter plus one and stores that value back, then tries one write.
  If the write succeeds the envelope is in the slot at the old write index,
  \<open>published_count\<close> has grown by one and the call returns true; if it fails the ring
  buffer is as before, \<open>dropped_count\<close> has grown by one and the call returns false.
  No other field changes and no call ends in an exception: \<open>publish\<close> is a total
  function into \<open>bool\<close> and bus. On a bus whose indices are in range the write fails
  exactly when the buffer is full. The counter of a new bus is 0, so its first publish
  enqueues sequence number 1.
\<close>

theorem publish_contract:
  "(let wrapper = envelope data (sequence b + 1);
        written = write_rb DEFAULT_RING_BUFFER_SIZE wrapper (ring_buffer b);
        result = publish topic data b
    in seq (market_data wrapper) = sequence b + 1
     \<and> fst result = fst written
     \<and> ring_buffer (snd result) = snd written
     \<and> sequence (snd result) = sequence b + 1
     \<and> (fst written \<longrightarrow>
            buffer (snd written) (write_index (ring_buffer b)) = wrapper
          \<and> published_count (snd result) = published_count b + 1
          \<and> dropped_count (snd result) = dropped_count b)
     \<and> (\<not> fst written \<longrightarrow>
            snd written = ring_buffer b
          \<and> dropped_count (snd result) = dropped_count b + 1
          \<and> published_count (snd result) = published_count b)
     \<and> processed_count (snd result) = processed_count b
     \<and> subscribers (snd result) = subscribers b
     \<and> processing_delay_ms (snd result) = processing_delay_ms b)
   \<and> (bus_inv b \<longrightarrow>
        (fst (publish topic data b) \<longleftrightarrow> \<not> is_full DEFAULT_RING_BUFFER_SIZE (ring_buffer b)))
   \<and> sequence (MessageBus_new :: 'w MessageBus) = 0
   \<and> publish topic data (MessageBus_new :: 'w MessageBus) =
       (True, MessageBus_new\<lparr>sequence := 1, published_count := 1,
                ring_buffer := \<lparr>buffer = (\<lambda>_. MessageWrapper_new)(0 := envelope data 1),
                                 read_index = 0, write_index = 1\<rparr>\<rparr>)"
proof -
  have full: "fst (publish topic data b) \<longleftrightarrow> \<not> is_full DEFAULT_RING_BUFFER_SIZE (ring_buffer b)"
    if "bus_inv b"
    using that write_rb_fst_ok [OF DEFAULT_ok, of "ring_buffer b"]
    by (simp add: publish_unfold bus_inv_def)
  have first: "publish topic data (MessageBus_new :: 'w MessageBus) =
       (True, MessageBus_new\<lparr>sequence := 1, published_count := 1,
                ring_buffer := \<lparr>buffer = (\<lambda>_. MessageWrapper_new)(0 := envelope data 1),
                                 read_index = 0, write_index = 1\<rparr>\<rparr>)"
    by (simp add: publish_unfold MessageBus_new_def RingBuffer_new_def write_rb_def
        DEFAULT_RING_BUFFER_SIZE_def)
  let ?wrapper = "envelope data (sequence b + 1)"
  let ?written = "write_rb DEFAULT_RING_BUFFER_SIZE ?wrapper (ring_buffer b)"
  let ?result = "publish topic data b"
  have a: "seq (market_data ?wrapper) = sequence b + 1"
    by (simp add: envelope_def)
  have b: "fst ?result = fst ?written" "ring_buffer (snd ?result) = snd ?written"
    "sequence (snd ?result) = sequence b + 1"
    "processed_count (snd ?result) = processed_count b"
    "subscribers (snd ?result) = subscribers b"
    "processing_delay_ms (snd ?result) = processing_delay_ms b"
    by (simp_all add: publish_unfold)
  have ok: "buffer (snd ?written) (write_index (ring_buffer b)) = ?wrapper
      \<and> published_count (snd ?result) = published_count b + 1
      \<and> dropped_count (snd ?result) = dropped_count b" if "fst ?written"
  proof -
    from that have "buffer (snd ?written) (write_index (ring_buffer b)) = ?wrapper"
      by (simp add: write_rb_def Let_def split: if_splits)
    with that show ?thesis by (simp add: publish_unfold)
  qed
  have no: "snd ?written = ring_buffer b
      \<and> dropped_count (snd ?result) = dropped_count b + 1
      \<and> published_count (snd ?result) = published_count b" if "\<not> fst ?written"
  proof -
    from that have "snd ?written = ring_buffer b"
      by (simp add: write_rb_def Let_def split: if_splits)
    with that show ?thesis by (simp add: publish_unfold)
  qed
  have z: "sequence (MessageBus_new :: 'w MessageBus) = 0"
    by (simp add: MessageBus_new_def)
  show ?thesis
    unfolding Let_def using a b ok no z full first by (intro conjI impI) blast+
qed


text \<open>Instances: the first publish on a new bus, and a publish on a full one.\<close>

lemma bus_inv_full_bus: "bus_inv full_bus"
  by (simp add: bus_inv_def full_bus_def rb_inv_def DEFAULT_RING_BUFFER_SIZE_def)

lemma is_full_full_bus: "is_full DEFAULT_RING_BUFFER_SIZE (ring_buffer full_bus)"
  by (simp add: full_bus_def is_full_def size_rb_def capacity_def DEFAULT_RING_BUFFER_SIZE_def)

theorem publish_contract_witness:
  "bus_inv (MessageBus_new :: unit MessageBus)
   \<and> \<not> is_full DEFAULT_RING_BUFFER_SIZE (ring_buffer (MessageBus_new :: unit MessageBus))
   \<and> fst (publish ''market_data'' tick1 (MessageBus_new :: unit MessageBus))
   \<and> published_count (snd (publish ''market_data'' tick1 (MessageBus_new :: unit MessageBus))) = 1
   \<and> dropped_count (snd (publish ''market_data'' tick1 (MessageBus_new :: unit MessageBus))) = 0
   \<and> buffer (ring_buffer (snd (publish ''market_data'' tick1 (MessageBus_new :: unit MessageBus)))) 0
       = envelope tick1 1
   \<and> bus_inv full_bus
   \<and> is_full DEFAULT_RING_BUFFER_SIZE (ring_buffer full_bus)
   \<and> \<not> fst (publish ''market_data'' tick1 full_bus)
   \<and> ring_buffer (snd (publish ''market_data'' tick1 full_bus)) = ring_buffer full_bus
   \<and> dropped_count (snd (publish ''market_data'' tick1 full_bus)) = 1
   \<and> published_count (snd (publish ''market_data'' tick1 full_bus)) = 0
   \<and> sequence (snd (publish ''market_data'' tick1 full_bus)) = 1"
proof -
  let ?new = "MessageBus_new :: unit MessageBus"
  note A = publish_contract [of tick1 ?new "''market_data''", unfolded Let_def]
  note B = publish_contract [of tick1 full_bus "''market_data''", unfolded Let_def]
  have n0: "sequence ?new = 0" "published_count ?new = 0" "dropped_count ?new = 0"
    "write_index (ring_buffer ?new) = 0"
    by (simp_all add: MessageBus_new_def RingBuffer_new_def)
  have f0: "sequence full_bus = 0" "published_count full_bus = 0" "dropped_count full_bus = 0"
    by (simp_all add: full_bus_def MessageBus_new_def)
  from A have p: "publish ''market_data'' tick1 ?new =
       (True, MessageBus_new\<lparr>sequence := 1, published_count := 1,
                ring_buffer := \<lparr>buffer = (\<lambda>_. MessageWrapper_new)(0 := envelope tick1 1),
                                 read_index = 0, write_index = 1\<rparr>\<rparr>)"
    by blast
  have a1: "fst (publish ''market_data'' tick1 ?new)"
    by (simp add: p)
  then have a2: "\<not> is_full DEFAULT_RING_BUFFER_SIZE (ring_buffer ?new)"
    using A bus_inv_new by blast
  have a3: "published_count (snd (publish ''market_data'' tick1 ?new)) = 1"
    "dropped_count (snd (publish ''market_data'' tick1 ?new)) = 0"
    "buffer (ring_buffer (snd (publish ''market_data'' tick1 ?new))) 0 = envelope tick1 1"
    unfolding p by (simp_all add: MessageBus_new_def)
  have b1: "\<not> fst (publish ''market_data'' tick1 full_bus)"
    using B bus_inv_full_bus is_full_full_bus by blast
  moreover from B have "fst (publish ''market_data'' tick1 full_bus) =
      fst (write_rb DEFAULT_RING_BUFFER_SIZE (envelope tick1 (sequence full_bus + 1))
                      (ring_buffer full_bus))"
    by blast
  ultimately have b2: "\<not> fst (write_rb DEFAULT_RING_BUFFER_SIZE (envelope tick1 (sequence full_bus + 1))
                      (ring_buffer full_bus))"
    by simp
  have b3: "ring_buffer (snd (publish ''market_data'' tick1 full_bus)) = ring_buffer full_bus"
    "dropped_count (snd (publish ''market_data'' tick1 full_bus)) = 1"
    "published_count (snd (publish ''market_data'' tick1 full_bus)) = 0"
    "sequence (snd (publish ''market_data'' tick1 full_bus)) = 1"
    using B b2 f0 by auto
  from a1 a2 a3 b1 b3 bus_inv_new bus_inv_full_bus is_full_full_bus show ?thesis
    by simp
qed

section \<open>Runs\<close>

lemma step_sequence:
  assumes "step x s = Inr s'"
  shows "sequence (bus s') = sequence (bus s) + (if is_Publish x then 1 else 0)"
proof (cases x)
  case (Publish topic data)
  with assms show ?thesis
    by (auto simp: publish_unfold split: prod.splits if_splits)
next
  case Iterate
  with assms show ?thesis
    by (auto simp: process_iteration_frame split: sum.splits)
next
  case (Subscribe topic callback)
  with assms show ?thesis by (auto simp: subscribe_def)
next
  case (Set_processing_delay_ms ms)
  with assms show ?thesis by (auto simp: set_processing_delay_ms_def)
qed

lemma run_sequence:
  "run ops s = Inr s' \<Longrightarrow>
     sequence (bus s') = sequence (bus s) + word_of_nat (length (filter is_Publish ops))"
proof (induction ops arbitrary: s)
  case Nil
  then show ?case by simp
next
  case (Cons x xs)
  from Cons.prems obtain s1 where s1: "step x s = Inr s1" and r: "run xs s1 = Inr s'"
    by (auto split: sum.splits)
  from Cons.IH [OF r] step_sequence [OF s1] show ?case
    by simp
qed

lemma unat_of_nat64: "n < 2 ^ 64 \<Longrightarrow> unat (word_of_nat n :: uint64_t) = n"
  by (simp add: unat_of_nat)

text \<open>
  Claim C10. Every call of \<open>publish\<close> advances the sequence counter by one, whether
  the write succeeds or not. In a run from a new bus the counter therefore equals the
  number of publish calls so far, and the next envelope gets that number plus one
  (as 64-bit values; as numbers while the count stays below \<open>2 ^ 64\<close>). A publish that
  fails leaves the ring buffer as it was, and the envelope enqueued by a publish after
  the next pass of the consumer loop carries the old counter plus two: the number in
  between is never delivered.
\<close>

theorem publish_consumes_sequence:
  "sequence (snd (publish topic data b)) = sequence b + 1
   \<and> (run ops (system_new w) = Inr s \<longrightarrow>
          sequence (bus s) = word_of_nat (length (filter is_Publish ops))
        \<and> seq (market_data (envelope data (sequence (bus s) + 1)))
            = word_of_nat (length (filter is_Publish ops) + 1)
        \<and> (length (filter is_Publish ops) + 1 < 2 ^ 64 \<longrightarrow>
              unat (seq (market_data (envelope data (sequence (bus s) + 1))))
                = length (filter is_Publish ops) + 1))
   \<and> (\<not> fst (publish topic data b) \<longrightarrow>
          ring_buffer (snd (publish topic data b)) = ring_buffer b
        \<and> (process_iteration (snd (publish topic data b)) w' = Inr r
             \<and> fst (publish topic' data' (bus_after r)) \<longrightarrow>
              buffer (ring_buffer (snd (publish topic' data' (bus_after r))))
                (write_index (ring_buffer (bus_after r))) = envelope data' (sequence b + 2)))"
proof -
  have one: "sequence (snd (publish topic data b)) = sequence b + 1"
    by (simp add: publish_unfold)
  have total: "sequence (bus s) = word_of_nat (length (filter is_Publish ops))"
    if "run ops (system_new w) = Inr s"
    using run_sequence [OF that] by (simp add: system_new_def MessageBus_new_def)
  have nxt: "seq (market_data (envelope data (sequence (bus s) + 1)))
            = word_of_nat (length (filter is_Publish ops) + 1)"
    if "run ops (system_new w) = Inr s"
    using total [OF that] by (simp add: envelope_def)
  have exact: "unat (seq (market_data (envelope data (sequence (bus s) + 1))))
                = length (filter is_Publish ops) + 1"
    if "run ops (system_new w) = Inr s" and "length (filter is_Publish ops) + 1 < 2 ^ 64"
    using unat_of_nat64 [OF that(2)] by (simp only: nxt [OF that(1)])
  have same: "ring_buffer (snd (publish topic data b)) = ring_buffer b"
    if "\<not> fst (publish topic data b)"
    using that by (simp add: publish_unfold write_rb_def Let_def split: if_splits)
  have gap: "buffer (ring_buffer (snd (publish topic' data' (bus_after r))))
                (write_index (ring_buffer (bus_after r))) = envelope data' (sequence b + 2)"
    if "process_iteration (snd (publish topic data b)) w' = Inr r"
      and "fst (publish topic' data' (bus_after r))"
  proof -
    have "sequence (bus_after r) = sequence b + 1"
      using process_iteration_frame(1) [OF that(1)] one by simp
    then show ?thesis
      using that(2)
      by (simp add: publish_unfold write_rb_def Let_def add.commute split: if_splits)
  qed
  from one total nxt exact same gap show ?thesis
    by (intro conjI impI) blast+
qed


text \<open>
  Instances: three calls with two publishes on a new bus; and on the full bus a publish
  that fails, a pass of the loop, and a publish that succeeds with sequence number 2.
\<close>

lemma step_Publish:
  "step (Publish topic data) s =
     Inr (s\<lparr>bus := snd (publish topic data (bus s)),
            accepted := accepted s @
              (if fst (publish topic data (bus s))
               then [envelope data (sequence (bus s) + 1)] else [])\<rparr>)"
  by (simp add: split_beta)

theorem publish_consumes_sequence_witness:
  "(\<exists>s. run [Publish ''a'' tick1, Iterate, Publish ''b'' tick2] (system_new ()) = Inr s
        \<and> sequence (bus s) = 2
        \<and> 2 + 1 < (2::nat) ^ 64
        \<and> unat (seq (market_data (envelope tick1 (sequence (bus s) + 1)))) = 3)
   \<and> \<not> fst (publish ''a'' tick1 full_bus)
   \<and> sequence (snd (publish ''a'' tick1 full_bus)) = 1
   \<and> ring_buffer (snd (publish ''a'' tick1 full_bus)) = ring_buffer full_bus
   \<and> (\<exists>r. process_iteration (snd (publish ''a'' tick1 full_bus)) () = Inr r
        \<and> fst (publish ''b'' tick2 (bus_after r))
        \<and> buffer (ring_buffer (snd (publish ''b'' tick2 (bus_after r))))
             (write_index (ring_buffer (bus_after r))) = envelope tick2 2)"
proof -
  let ?ops = "[Publish ''a'' tick1, Iterate, Publish ''b'' tick2] :: unit op list"
  let ?b1 = "snd (publish ''a'' tick1 full_bus)"
  have ne: "\<not> is_empty DEFAULT_RING_BUFFER_SIZE
              (ring_buffer (snd (publish ''a'' tick1 (MessageBus_new :: unit MessageBus))))"
    by (simp add: publish_unfold MessageBus_new_def RingBuffer_new_def write_rb_def
        DEFAULT_RING_BUFFER_SIZE_def is_empty_def)
  have nosub: "market_data_subscribers (snd (publish ''a'' tick1 (MessageBus_new :: unit MessageBus))) = []"
    by (simp add: publish_unfold MessageBus_new_def market_data_subscribers_def)
  obtain s where s: "run ?ops (system_new ()) = Inr s"
    by (simp add: step_Publish system_new_def process_iteration_not_empty [OF ne] nosub Let_def
        del: step.simps(1))
  have len: "length (filter is_Publish ?ops) = 2" by simp
  have f1: "\<not> fst (publish ''a'' tick1 full_bus)"
    and f3: "ring_buffer ?b1 = ring_buffer full_bus"
    by (simp_all add: publish_full [OF bus_inv_full_bus is_full_full_bus])
  have ne1: "\<not> is_empty DEFAULT_RING_BUFFER_SIZE (ring_buffer ?b1)"
    unfolding f3 by (simp add: full_bus_def is_empty_def)
  have nosub1: "market_data_subscribers ?b1 = []"
    by (simp add: publish_unfold full_bus_def MessageBus_new_def market_data_subscribers_def)
  define r where "r =
     \<lparr>bus_after = ?b1\<lparr>ring_buffer := (ring_buffer ?b1)\<lparr>read_index :=
                      (read_index (ring_buffer ?b1) + 1) AND (DEFAULT_RING_BUFFER_SIZE - 1)\<rparr>,
                    processed_count := processed_count ?b1 + 1\<rparr>,
      world_after = (),
      delivered = Some (tick_of (buffer (ring_buffer ?b1) (read_index (ring_buffer ?b1)))),
      slept = sleep_of ?b1\<rparr>"
  have r: "process_iteration ?b1 () = Inr r"
    unfolding r_def by (simp add: process_iteration_not_empty [OF ne1] nosub1 Let_def)
  have rb: "ring_buffer (bus_after r) = (ring_buffer full_bus)\<lparr>read_index := 2\<rparr>"
    unfolding r_def by (simp add: f3) (simp add: full_bus_def DEFAULT_RING_BUFFER_SIZE_def)
  have g1: "fst (publish ''b'' tick2 (bus_after r))"
    by (simp add: publish_unfold rb write_rb_def full_bus_def DEFAULT_RING_BUFFER_SIZE_def)
  have z: "sequence full_bus = 0" by (simp add: full_bus_def MessageBus_new_def)
  note A = publish_consumes_sequence
    [of "''a''" tick1 full_bus ?ops "()" s "()" r "''b''" tick2, unfolded len z]
  have lt: "2 + 1 < (2::nat) ^ 64" by simp
  from A s have s2: "sequence (bus s) = 2"
    by simp
  from A s lt have "unat (seq (market_data (envelope tick1 (sequence (bus s) + 1)))) = 2 + 1"
    by blast
  then have s3: "unat (seq (market_data (envelope tick1 (sequence (bus s) + 1)))) = 3"
    by simp
  from A have f2: "sequence ?b1 = 1"
    by simp
  from A f1 r g1
  have g3: "buffer (ring_buffer (snd (publish ''b'' tick2 (bus_after r))))
             (write_index (ring_buffer (bus_after r))) = envelope tick2 2"
    by simp
  from s s2 s3 f1 f2 f3 r g1 g3 show ?thesis
    by auto
qed


section \<open>Topics\<close>






section \<open>The processing delay\<close>

text \<open>
  Claim C7 says that a pass of the loop that finds the buffer empty does not sleep, for
  every delay. The \<open>sleep_for\<close> stands after the \<open>if\<close> that reads, not inside it: with a
  delay of 5 ms a pass over an empty buffer sleeps 5 ms.
\<close>

theorem empty_iteration_sleeps:
  "is_empty DEFAULT_RING_BUFFER_SIZE
     (ring_buffer (set_processing_delay_ms 5 (MessageBus_new :: unit MessageBus)))
   \<and> process_iteration (set_processing_delay_ms 5 (MessageBus_new :: unit MessageBus)) () =
       Inr \<lparr>bus_after = set_processing_delay_ms 5 MessageBus_new, world_after = (),
            delivered = None, slept = Some 5\<rparr>"
proof -
  have e: "is_empty DEFAULT_RING_BUFFER_SIZE
     (ring_buffer (set_processing_delay_ms 5 (MessageBus_new :: unit MessageBus)))"
    by (simp add: set_processing_delay_ms_def MessageBus_new_def RingBuffer_new_def is_empty_def)
  have "sleep_of (set_processing_delay_ms 5 (MessageBus_new :: unit MessageBus)) = Some 5"
    by (simp add: sleep_of_def set_processing_delay_ms_def)
  with e show ?thesis by (simp add: process_iteration_empty)
qed

text \<open>
  Claim C7, amended. Every pass of the loop that ends normally sleeps for the
  processing delay if the delay is positive and does not sleep if it is 0, whether or
  not it read an item. A pass that finds the buffer empty changes neither the bus nor
  the world, hands out no tick, and the loop then goes on to its next check of the run
  flag.
\<close>

theorem sleep_every_iteration:
  "(process_iteration b w = Inr r \<longrightarrow>
      slept r = (if 0 < processing_delay_ms b then Some (processing_delay_ms b) else None))
   \<and> (is_empty DEFAULT_RING_BUFFER_SIZE (ring_buffer b) \<longrightarrow>
        process_iteration b w =
          Inr \<lparr>bus_after = b, world_after = w, delivered = None,
               slept = (if 0 < processing_delay_ms b then Some (processing_delay_ms b) else None)\<rparr>
      \<and> process_messages (True # later) b w =
          (case process_messages later b w of
             None \<Rightarrow> None
           | Some (Inl e) \<Rightarrow> Some (Inl e)
           | Some (Inr (b', w', sleeps)) \<Rightarrow>
               Some (Inr (b', w',
                 (if 0 < processing_delay_ms b then [processing_delay_ms b] else []) @ sleeps))))"
proof -
  have a: "slept r = (if 0 < processing_delay_ms b then Some (processing_delay_ms b) else None)"
    if "process_iteration b w = Inr r"
    using process_iteration_frame(6) [OF that] by (simp add: sleep_of_def)
  have b: "process_iteration b w =
          Inr \<lparr>bus_after = b, world_after = w, delivered = None,
               slept = (if 0 < processing_delay_ms b then Some (processing_delay_ms b) else None)\<rparr>"
    if "is_empty DEFAULT_RING_BUFFER_SIZE (ring_buffer b)"
    using that by (simp add: process_iteration_empty sleep_of_def)
  have c: "process_messages (True # later) b w =
          (case process_messages later b w of
             None \<Rightarrow> None
           | Some (Inl e) \<Rightarrow> Some (Inl e)
           | Some (Inr (b', w', sleeps)) \<Rightarrow>
               Some (Inr (b', w',
                 (if 0 < processing_delay_ms b then [processing_delay_ms b] else []) @ sleeps)))"
    if "is_empty DEFAULT_RING_BUFFER_SIZE (ring_buffer b)"
    by (simp add: b [OF that] split: option.splits sum.splits)
  from a b c show ?thesis by blast
qed

text \<open>Instances: two passes over an empty buffer, with delay 0 and with delay 7.\<close>

theorem sleep_every_iteration_witness:
  "is_empty DEFAULT_RING_BUFFER_SIZE (ring_buffer (MessageBus_new :: unit MessageBus))
   \<and> process_iteration (MessageBus_new :: unit MessageBus) () =
       Inr \<lparr>bus_after = MessageBus_new, world_after = (), delivered = None, slept = None\<rparr>
   \<and> process_messages [True, True, False] (MessageBus_new :: unit MessageBus) () =
       Some (Inr (MessageBus_new, (), []))
   \<and> process_messages [True, True, False]
         (set_processing_delay_ms 7 (MessageBus_new :: unit MessageBus)) () =
       Some (Inr (set_processing_delay_ms 7 MessageBus_new, (), [7, 7]))"
proof -
  let ?b = "MessageBus_new :: unit MessageBus"
  let ?c = "set_processing_delay_ms 7 ?b"
  have e: "is_empty DEFAULT_RING_BUFFER_SIZE (ring_buffer ?b)"
    "is_empty DEFAULT_RING_BUFFER_SIZE (ring_buffer ?c)"
    by (simp_all add: set_processing_delay_ms_def MessageBus_new_def RingBuffer_new_def is_empty_def)
  have d: "processing_delay_ms ?b = 0" "processing_delay_ms ?c = 7"
    by (simp_all add: set_processing_delay_ms_def MessageBus_new_def)
  have stop: "process_messages [False] ?b () = Some (Inr (?b, (), []))"
    "process_messages [False] ?c () = Some (Inr (?c, (), []))"
    by simp_all
  let ?rb = "\<lparr>bus_after = ?b, world_after = (), delivered = None, slept = None\<rparr>"
  let ?rc = "\<lparr>bus_after = ?c, world_after = (), delivered = None, slept = Some 7\<rparr>"
  note B = sleep_every_iteration [of ?b "()" ?rb "[False]"]
    sleep_every_iteration [of ?b "()" ?rb "[True, False]"]
  note C = sleep_every_iteration [of ?c "()" ?rc "[False]"]
    sleep_every_iteration [of ?c "()" ?rc "[True, False]"]
  have b0: "process_iteration ?b () =
       Inr \<lparr>bus_after = ?b, world_after = (), delivered = None, slept = None\<rparr>"
    using B(1) e(1) d(1) by simp
  have b1: "process_messages [True, False] ?b () = Some (Inr (?b, (), []))"
    using B(1) e(1) d(1) stop(1) by simp
  have b2: "process_messages [True, True, False] ?b () = Some (Inr (?b, (), []))"
    using B(2) e(1) d(1) b1 by simp
  have c1: "process_messages [True, False] ?c () = Some (Inr (?c, (), [7]))"
    using C(1) e(2) d(2) stop(2) by simp
  have c2: "process_messages [True, True, False] ?c () = Some (Inr (?c, (), [7, 7]))"
    using C(2) e(2) d(2) c1 by simp
  from e(1) b0 b2 c2 show ?thesis by simp
qed

section \<open>Subscribers\<close>

lemma notify_no_other:
  assumes "\<forall>cb \<in> set cbs. \<forall>w. fst (cb data w) \<noteq> Threw_other"
  shows "notify cbs data w = Inr (foldl (\<lambda>w cb. snd (cb data w)) w cbs)"
  using assms
proof (induction cbs arbitrary: w)
  case Nil
  then show ?case by simp
next
  case (Cons cb cbs)
  obtain out w' where c: "cb data w = (out, w')" by (cases "cb data w")
  have "fst (cb data w) \<noteq> Threw_other" using Cons.prems by simp
  with c have "out \<noteq> Threw_other" by simp
  moreover have "notify cbs data w' = Inr (foldl (\<lambda>w cb. snd (cb data w)) w' cbs)"
    using Cons.prems by (intro Cons.IH) simp
  ultimately show ?case
    using c by (cases out) simp_all
qed

lemma market_data_subscribers_subscribe:
  "market_data_subscribers (subscribe topic cb b) =
     (if topic = ''market_data'' then market_data_subscribers b @ [cb]
      else market_data_subscribers b)"
  by (simp add: market_data_subscribers_def subscribe_def)

lemma market_data_subscribers_publish:
  "market_data_subscribers (snd (publish topic data b)) = market_data_subscribers b"
  by (simp add: market_data_subscribers_def publish_unfold)

lemma market_data_subscribers_new: "market_data_subscribers MessageBus_new = []"
  by (simp add: market_data_subscribers_def MessageBus_new_def)

lemmas market_data_subscribers_simps =
  market_data_subscribers_publish market_data_subscribers_subscribe market_data_subscribers_new

text \<open>
  Claim C6 says that any fault raised by a callback is caught at the call. The handler
  there, and the one around the loop body, are for \<open>std::exception\<close> only. On
  \<open>throwing_bus\<close> the first callback throws a value of another type: the second callback
  is never called, \<open>processed_count\<close> stays 0 although the tick has left the ring
  buffer, and the thrown value leaves \<open>process_messages\<close>.
\<close>

theorem other_throw_escapes:
  "market_data_subscribers throwing_bus = [cb_throw_other ''X'', cb_log ''B'']
   \<and> process_iteration throwing_bus [] =
       Inl (throwing_bus\<lparr>ring_buffer := (ring_buffer throwing_bus)\<lparr>read_index := 1\<rparr>\<rparr>,
            [(''X'', 1)])
   \<and> processed_count
        (throwing_bus\<lparr>ring_buffer := (ring_buffer throwing_bus)\<lparr>read_index := 1\<rparr>\<rparr>) = 0
   \<and> process_messages [True, True, False] throwing_bus [] =
       Some (Inl (throwing_bus\<lparr>ring_buffer := (ring_buffer throwing_bus)\<lparr>read_index := 1\<rparr>\<rparr>,
                  [(''X'', 1)]))"
proof -
  have subs: "market_data_subscribers throwing_bus = [cb_throw_other ''X'', cb_log ''B'']"
    by (simp add: throwing_bus_def market_data_subscribers_simps)
  have rb: "ring_buffer throwing_bus =
      \<lparr>buffer = (\<lambda>_. MessageWrapper_new)(0 := envelope tick1 1), read_index = 0, write_index = 1\<rparr>"
    by (simp add: throwing_bus_def publish_unfold subscribe_def MessageBus_new_def
        RingBuffer_new_def write_rb_def DEFAULT_RING_BUFFER_SIZE_def)
  have ne: "\<not> is_empty DEFAULT_RING_BUFFER_SIZE (ring_buffer throwing_bus)"
    unfolding rb by (simp add: is_empty_def)
  have pc: "processed_count throwing_bus = 0"
    by (simp add: throwing_bus_def publish_unfold subscribe_def MessageBus_new_def)
  have it: "process_iteration throwing_bus [] =
       Inl (throwing_bus\<lparr>ring_buffer := (ring_buffer throwing_bus)\<lparr>read_index := 1\<rparr>\<rparr>,
            [(''X'', 1)])"
    unfolding process_iteration_not_empty [OF ne] subs
    by (simp add: rb Let_def cb_throw_other_def tick_of_def envelope_def
        DEFAULT_RING_BUFFER_SIZE_def)
  from subs it pc show ?thesis by simp
qed


text \<open>
  Claim C6, amended. In a pass of the consumer loop that reads a tick, if no callback
  registered under \<open>"market_data"\<close> throws a value outside \<open>std::exception\<close>, every one
  of these callbacks is called exactly once with the tick, in registration order,
  each on the world the previous one left, whether or not it threw; then
  \<open>processed_count\<close> grows by one and the loop goes on to its next check of the run flag.
  \<open>subscribe\<close> appends, so registration order is subscription order.
\<close>

theorem callbacks_notified:
  "(let rb = ring_buffer b;
        data = tick_of (buffer rb (read_index rb));
        cbs = market_data_subscribers b;
        result = \<lparr>bus_after = b\<lparr>ring_buffer := rb\<lparr>read_index :=
                                       (read_index rb + 1) AND (DEFAULT_RING_BUFFER_SIZE - 1)\<rparr>,
                                   processed_count := processed_count b + 1\<rparr>,
                  world_after = foldl (\<lambda>w cb. snd (cb data w)) w cbs,
                  delivered = Some data,
                  slept = sleep_of b\<rparr>
    in \<not> is_empty DEFAULT_RING_BUFFER_SIZE rb
       \<and> (\<forall>cb \<in> set cbs. \<forall>w. fst (cb data w) \<noteq> Threw_other) \<longrightarrow>
         process_iteration b w = Inr result
       \<and> process_messages (True # later) b w =
           (case process_messages later (bus_after result) (world_after result) of
              None \<Rightarrow> None
            | Some (Inl e) \<Rightarrow> Some (Inl e)
            | Some (Inr (b', w', sleeps)) \<Rightarrow>
                Some (Inr (b', w', (case sleep_of b of None \<Rightarrow> [] | Some d \<Rightarrow> [d]) @ sleeps))))
   \<and> market_data_subscribers (subscribe ''market_data'' cb b) = market_data_subscribers b @ [cb]"
proof -
  let ?rb = "ring_buffer b"
  let ?data = "tick_of (buffer ?rb (read_index ?rb))"
  let ?cbs = "market_data_subscribers b"
  let ?result = "\<lparr>bus_after = b\<lparr>ring_buffer := ?rb\<lparr>read_index :=
                                       (read_index ?rb + 1) AND (DEFAULT_RING_BUFFER_SIZE - 1)\<rparr>,
                                   processed_count := processed_count b + 1\<rparr>,
                  world_after = foldl (\<lambda>w cb. snd (cb ?data w)) w ?cbs,
                  delivered = Some ?data,
                  slept = sleep_of b\<rparr>"
  have it: "process_iteration b w = Inr ?result"
    if "\<not> is_empty DEFAULT_RING_BUFFER_SIZE ?rb"
      and "\<forall>cb \<in> set ?cbs. \<forall>w. fst (cb ?data w) \<noteq> Threw_other"
    by (simp add: process_iteration_not_empty [OF that(1)] notify_no_other [OF that(2)] Let_def)
  have loop: "process_messages (True # later) b w =
           (case process_messages later (bus_after ?result) (world_after ?result) of
              None \<Rightarrow> None
            | Some (Inl e) \<Rightarrow> Some (Inl e)
            | Some (Inr (b', w', sleeps)) \<Rightarrow>
                Some (Inr (b', w', (case sleep_of b of None \<Rightarrow> [] | Some d \<Rightarrow> [d]) @ sleeps)))"
    if "\<not> is_empty DEFAULT_RING_BUFFER_SIZE ?rb"
      and "\<forall>cb \<in> set ?cbs. \<forall>w. fst (cb ?data w) \<noteq> Threw_other"
    by (simp add: it [OF that] split: option.splits sum.splits)
  have sub: "market_data_subscribers (subscribe ''market_data'' cb b) = market_data_subscribers b @ [cb]"
    by (simp add: market_data_subscribers_subscribe)
  show ?thesis
    unfolding Let_def using it loop sub by blast
qed


text \<open>
  An instance: three subscribers, the second throwing a \<open>std::runtime_error\<close> at every
  call; two ticks, each published and then handled by one pass. All three are called for
  both ticks, in order, and \<open>processed_count\<close> reaches 2.
\<close>

theorem callbacks_notified_witness:
  "\<exists>r1 r2.
     process_iteration three_bus [] = Inr r1
   \<and> world_after r1 = [(''A'', 1), (''T'', 1), (''B'', 1)]
   \<and> processed_count (bus_after r1) = 1
   \<and> process_iteration (snd (publish ''market_data'' tick2 (bus_after r1))) (world_after r1) = Inr r2
   \<and> world_after r2 = [(''A'', 1), (''T'', 1), (''B'', 1), (''A'', 2), (''T'', 2), (''B'', 2)]
   \<and> processed_count (bus_after r2) = 2"
proof -
  let ?cbs = "[cb_log ''A'', cb_throw ''T'', cb_log ''B'']"
  have subs: "market_data_subscribers three_bus = ?cbs"
    by (simp add: three_bus_def market_data_subscribers_simps)
  have rb: "ring_buffer three_bus =
      \<lparr>buffer = (\<lambda>_. MessageWrapper_new)(0 := envelope tick1 1), read_index = 0, write_index = 1\<rparr>"
    by (simp add: three_bus_def publish_unfold subscribe_def MessageBus_new_def
        RingBuffer_new_def write_rb_def DEFAULT_RING_BUFFER_SIZE_def)
  have cnt: "processed_count three_bus = 0" "sequence three_bus = 1"
    by (simp_all add: three_bus_def publish_unfold subscribe_def MessageBus_new_def)
  have ne: "\<not> is_empty DEFAULT_RING_BUFFER_SIZE (ring_buffer three_bus)"
    unfolding rb by (simp add: is_empty_def)
  have safe: "\<forall>cb \<in> set ?cbs. \<forall>w. fst (cb d w) \<noteq> Threw_other" for d
    by (simp add: cb_log_def cb_throw_def)
  define r1 where "r1 =
     \<lparr>bus_after = three_bus\<lparr>ring_buffer := (ring_buffer three_bus)\<lparr>read_index :=
                (read_index (ring_buffer three_bus) + 1) AND (DEFAULT_RING_BUFFER_SIZE - 1)\<rparr>,
              processed_count := processed_count three_bus + 1\<rparr>,
      world_after = foldl (\<lambda>w cb. snd (cb (tick_of (buffer (ring_buffer three_bus)
                       (read_index (ring_buffer three_bus)))) w)) [] (market_data_subscribers three_bus),
      delivered = Some (tick_of (buffer (ring_buffer three_bus) (read_index (ring_buffer three_bus)))),
      slept = sleep_of three_bus\<rparr>"
  from callbacks_notified [of three_bus "[]" "[]" "cb_log ''C''", unfolded Let_def] ne safe
  have i1: "process_iteration three_bus [] = Inr r1"
    unfolding r1_def subs by blast
  have w1: "world_after r1 = [(''A'', 1), (''T'', 1), (''B'', 1)]"
    by (simp add: r1_def subs rb cb_log_def cb_throw_def tick_of_def envelope_def)
  have p1: "processed_count (bus_after r1) = 1"
    by (simp add: r1_def cnt)
  let ?b2 = "snd (publish ''market_data'' tick2 (bus_after r1))"
  have subs2: "market_data_subscribers ?b2 = ?cbs"
    by (simp add: market_data_subscribers_simps)
      (simp add: r1_def market_data_subscribers_def subs [unfolded market_data_subscribers_def])
  have rb2: "ring_buffer ?b2 =
      \<lparr>buffer = (\<lambda>_. MessageWrapper_new)(0 := envelope tick1 1, 1 := envelope tick2 2),
       read_index = 1, write_index = 2\<rparr>"
    by (simp add: publish_unfold r1_def rb cnt write_rb_def DEFAULT_RING_BUFFER_SIZE_def)
  have cnt2: "processed_count ?b2 = 1"
    by (simp add: publish_unfold r1_def cnt)
  have ne2: "\<not> is_empty DEFAULT_RING_BUFFER_SIZE (ring_buffer ?b2)"
    unfolding rb2 by (simp add: is_empty_def)
  define r2 where "r2 =
     \<lparr>bus_after = ?b2\<lparr>ring_buffer := (ring_buffer ?b2)\<lparr>read_index :=
                (read_index (ring_buffer ?b2) + 1) AND (DEFAULT_RING_BUFFER_SIZE - 1)\<rparr>,
              processed_count := processed_count ?b2 + 1\<rparr>,
      world_after = foldl (\<lambda>w cb. snd (cb (tick_of (buffer (ring_buffer ?b2)
                       (read_index (ring_buffer ?b2)))) w)) (world_after r1) (market_data_subscribers ?b2),
      delivered = Some (tick_of (buffer (ring_buffer ?b2) (read_index (ring_buffer ?b2)))),
      slept = sleep_of ?b2\<rparr>"
  from callbacks_notified [of ?b2 "world_after r1" "[]" "cb_log ''C''", unfolded Let_def] ne2 safe
  have i2: "process_iteration ?b2 (world_after r1) = Inr r2"
    unfolding r2_def subs2 by blast
  have w2: "world_after r2 =
      [(''A'', 1), (''T'', 1), (''B'', 1), (''A'', 2), (''T'', 2), (''B'', 2)]"
    by (simp add: r2_def subs2 rb2 w1 cb_log_def cb_throw_def tick_of_def envelope_def)
  have p2: "processed_count (bus_after r2) = 2"
    by (simp add: r2_def cnt2)
  from i1 w1 p1 i2 w2 p2 show ?thesis by blast
qed

section \<open>Invariants of a run\<close>

lemma process_iteration_Inr:
  assumes "process_iteration b w = Inr r"
  shows "bus_after r =
           b\<lparr>ring_buffer := snd (snd (read_rb DEFAULT_RING_BUFFER_SIZE MessageWrapper_new (ring_buffer b))),
              processed_count := processed_count b +
                (if is_empty DEFAULT_RING_BUFFER_SIZE (ring_buffer b) then 0 else 1)\<rparr>"
    and "delivered r =
           (if is_empty DEFAULT_RING_BUFFER_SIZE (ring_buffer b) then None
            else Some (tick_of (fst (snd (read_rb DEFAULT_RING_BUFFER_SIZE MessageWrapper_new
                                            (ring_buffer b))))))"
  using assms
  by (cases "is_empty DEFAULT_RING_BUFFER_SIZE (ring_buffer b)";
      auto simp: process_iteration_empty process_iteration_not_empty Let_def
        read_rb_empty read_rb_not_empty split: sum.splits)+

lemma process_iteration_bus_inv:
  assumes "process_iteration b w = Inr r" and "bus_inv b"
  shows "bus_inv (bus_after r)"
  using assms(2) unfolding process_iteration_Inr(1) [OF assms(1)] bus_inv_def
  by (simp add: read_rb_inv_ok DEFAULT_ok)

lemma step_bus_inv:
  assumes "step x s = Inr s'" and "bus_inv (bus s)"
  shows "bus_inv (bus s')"
proof (cases x)
  case (Publish topic data)
  with assms publish_bus_inv [of "bus s" topic data] show ?thesis
    by (auto simp: split_beta)
next
  case Iterate
  with assms show ?thesis
    by (auto simp: process_iteration_bus_inv split: sum.splits)
next
  case (Subscribe topic callback)
  with assms show ?thesis by (auto simp: subscribe_def bus_inv_def)
next
  case (Set_processing_delay_ms ms)
  with assms show ?thesis by (auto simp: set_processing_delay_ms_def bus_inv_def)
qed

lemma publish_balanced:
  assumes "bus_inv b" and "balanced b"
  shows "balanced (snd (publish topic data b))"
proof (cases "is_full DEFAULT_RING_BUFFER_SIZE (ring_buffer b)")
  case True
  with assms show ?thesis
    by (simp add: publish_full balanced_def get_size_def)
next
  case False
  with assms write_rb_size_ok [OF DEFAULT_ok, of "ring_buffer b" "envelope data (sequence b + 1)"]
  show ?thesis
    by (simp add: publish_not_full balanced_def get_size_def bus_inv_def)
qed

lemma process_iteration_balanced:
  assumes "process_iteration b w = Inr r" and "bus_inv b" and "balanced b"
  shows "balanced (bus_after r)"
proof (cases "is_empty DEFAULT_RING_BUFFER_SIZE (ring_buffer b)")
  case True
  with assms show ?thesis
    by (simp add: process_iteration_Inr(1) [OF assms(1)] read_rb_empty balanced_def get_size_def)
next
  case False
  let ?rb' = "snd (snd (read_rb DEFAULT_RING_BUFFER_SIZE MessageWrapper_new (ring_buffer b)))"
  from False assms(2) have sz: "size_rb DEFAULT_RING_BUFFER_SIZE ?rb' + 1
       = size_rb DEFAULT_RING_BUFFER_SIZE (ring_buffer b)"
    by (intro read_rb_size_ok DEFAULT_ok) (simp_all add: bus_inv_def)
  have "processed_count b + 1 + size_rb DEFAULT_RING_BUFFER_SIZE ?rb'
          = processed_count b + (size_rb DEFAULT_RING_BUFFER_SIZE ?rb' + 1)"
    by simp
  also have "\<dots> = published_count b"
    using assms(3) by (simp only: sz balanced_def get_size_def)
  finally show ?thesis
    using False by (simp add: process_iteration_Inr(1) [OF assms(1)] balanced_def get_size_def)
qed

lemma step_balanced:
  assumes "step x s = Inr s'" and "bus_inv (bus s)" and "balanced (bus s)"
  shows "balanced (bus s')"
proof (cases x)
  case (Publish topic data)
  with assms publish_balanced [of "bus s" topic data] show ?thesis
    by (auto simp: split_beta)
next
  case Iterate
  with assms show ?thesis
    by (auto simp: process_iteration_balanced split: sum.splits)
next
  case (Subscribe topic callback)
  with assms show ?thesis by (auto simp: subscribe_def balanced_def get_size_def)
next
  case (Set_processing_delay_ms ms)
  with assms show ?thesis by (auto simp: set_processing_delay_ms_def balanced_def get_size_def)
qed

lemma run_balanced:
  "run ops s = Inr s' \<Longrightarrow> bus_inv (bus s) \<Longrightarrow> balanced (bus s) \<Longrightarrow>
     bus_inv (bus s') \<and> balanced (bus s')"
proof (induction ops arbitrary: s)
  case Nil
  then show ?case by simp
next
  case (Cons x xs)
  from Cons.prems(1) obtain s1 where s1: "step x s = Inr s1" and r: "run xs s1 = Inr s'"
    by (auto split: sum.splits)
  from step_bus_inv [OF s1 Cons.prems(2)] step_balanced [OF s1 Cons.prems(2,3)]
  show ?case by (intro Cons.IH [OF r])
qed

lemma balanced_new: "balanced MessageBus_new"
  by (simp add: balanced_def get_size_def MessageBus_new_def RingBuffer_new_def size_rb_def)


subsection \<open>Runs that do not end early\<close>

lemma process_iteration_total:
  assumes "safe_bus b"
  shows "\<exists>r. process_iteration b w = Inr r"
proof (cases "is_empty DEFAULT_RING_BUFFER_SIZE (ring_buffer b)")
  case True
  then show ?thesis by (simp add: process_iteration_empty)
next
  case False
  from assms have "\<forall>cb \<in> set (market_data_subscribers b). \<forall>w.
      fst (cb (tick_of (buffer (ring_buffer b) (read_index (ring_buffer b)))) w) \<noteq> Threw_other"
    by (simp add: safe_bus_def safe_callback_def)
  from notify_no_other [OF this] False show ?thesis
    by (simp add: process_iteration_not_empty Let_def)
qed

lemma market_data_subscribers_cong:
  "subscribers b' = subscribers b \<Longrightarrow> market_data_subscribers b' = market_data_subscribers b"
  by (simp add: market_data_subscribers_def)

lemma step_safe_bus:
  assumes "step x s = Inr s'" and "safe_bus (bus s)" and "safe_op x"
  shows "safe_bus (bus s')"
proof (cases x)
  case (Publish topic data)
  with assms show ?thesis
    by (auto simp: step_Publish safe_bus_def market_data_subscribers_simps simp del: step.simps(1))
next
  case Iterate
  with assms(1) obtain r where r: "process_iteration (bus s) (world s) = Inr r"
    and s': "bus s' = bus_after r"
    by (auto split: sum.splits)
  from market_data_subscribers_cong [OF process_iteration_frame(4) [OF r]] assms(2)
  show ?thesis by (simp add: s' safe_bus_def)
next
  case (Subscribe topic callback)
  with assms show ?thesis
    by (auto simp: safe_bus_def market_data_subscribers_simps split: if_splits)
next
  case (Set_processing_delay_ms ms)
  have "market_data_subscribers (set_processing_delay_ms ms (bus s)) = market_data_subscribers (bus s)"
    by (rule market_data_subscribers_cong) (simp add: set_processing_delay_ms_def)
  with assms Set_processing_delay_ms show ?thesis
    by (auto simp: safe_bus_def)
qed

lemma step_total:
  assumes "safe_bus (bus s)"
  shows "\<exists>s'. step x s = Inr s'"
proof (cases x)
  case Iterate
  with process_iteration_total [OF assms, of "world s"] show ?thesis by auto
qed (simp_all add: split_beta)

lemma run_total:
  "safe_bus (bus s) \<Longrightarrow> \<forall>x \<in> set ops. safe_op x \<Longrightarrow>
     \<exists>s'. run ops s = Inr s' \<and> safe_bus (bus s')"
proof (induction ops arbitrary: s)
  case Nil
  then show ?case by simp
next
  case (Cons x xs)
  from step_total [OF Cons.prems(1), of x] obtain s1 where s1: "step x s = Inr s1" by blast
  from step_safe_bus [OF s1 Cons.prems(1)] Cons.prems(2) have "safe_bus (bus s1)" by simp
  from Cons.IH [OF this] Cons.prems(2) obtain s' where "run xs s1 = Inr s'" "safe_bus (bus s')"
    by auto
  with s1 show ?case by simp
qed

lemma safe_bus_new: "safe_bus MessageBus_new"
  by (simp add: safe_bus_def market_data_subscribers_new)

lemma step_accepted_same:
  assumes "step x s = Inr s'" and "\<not> is_Publish x"
  shows "accepted s' = accepted s"
  using assms by (cases x) (auto split: sum.splits)

lemma run_accepted_same:
  "run ops s = Inr s' \<Longrightarrow> \<forall>x \<in> set ops. \<not> is_Publish x \<Longrightarrow> accepted s' = accepted s"
proof (induction ops arbitrary: s)
  case Nil
  then show ?case by simp
next
  case (Cons x xs)
  from Cons.prems(1) obtain s1 where s1: "step x s = Inr s1" and r: "run xs s1 = Inr s'"
    by (auto split: sum.splits)
  from step_accepted_same [OF s1] Cons.IH [OF r] Cons.prems(2) show ?case by simp
qed


lemma run_safe_new:
  assumes "\<forall>x \<in> set ops. safe_op x"
  shows "\<exists>s. run ops (system_new w) = Inr s \<and> safe_bus (bus s)"
  using run_total [of "system_new w" ops] assms
  by (simp add: system_new_def safe_bus_new)

subsection \<open>The counters\<close>

text \<open>
  Claim C2 says that \<open>processed_count + size() = published_count\<close> holds after every
  call, with resets and concurrent producers as the only exceptions. It does not hold
  after a pass of the consumer loop in which a subscriber throws a value outside
  \<open>std::exception\<close>: on a bus with one published tick the read has taken the tick out of
  the ring buffer, neither handler catches the value, the increment of \<open>processed_count\<close>
  is skipped, and the bus is left with 1 published, 0 processed and size 0.
\<close>

theorem escape_unbalanced:
  "bus_inv throwing_bus
   \<and> processed_count throwing_bus + get_size throwing_bus = published_count throwing_bus
   \<and> process_iteration throwing_bus [] =
     Inl (throwing_bus\<lparr>ring_buffer := (ring_buffer throwing_bus)\<lparr>read_index := 1\<rparr>\<rparr>,
          [(''X'', 1)])
   \<and> published_count
        (throwing_bus\<lparr>ring_buffer := (ring_buffer throwing_bus)\<lparr>read_index := 1\<rparr>\<rparr>) = 1
   \<and> processed_count
        (throwing_bus\<lparr>ring_buffer := (ring_buffer throwing_bus)\<lparr>read_index := 1\<rparr>\<rparr>) = 0
   \<and> get_size
        (throwing_bus\<lparr>ring_buffer := (ring_buffer throwing_bus)\<lparr>read_index := 1\<rparr>\<rparr>) = 0
   \<and> processed_count
        (throwing_bus\<lparr>ring_buffer := (ring_buffer throwing_bus)\<lparr>read_index := 1\<rparr>\<rparr>)
       + get_size
        (throwing_bus\<lparr>ring_buffer := (ring_buffer throwing_bus)\<lparr>read_index := 1\<rparr>\<rparr>)
       \<noteq> published_count
        (throwing_bus\<lparr>ring_buffer := (ring_buffer throwing_bus)\<lparr>read_index := 1\<rparr>\<rparr>)
   \<and> run [Subscribe ''market_data'' (cb_throw_other ''X''),
           Subscribe ''market_data'' (cb_log ''B''),
           Publish ''market_data'' tick1, Iterate] (system_new []) = Inl Terminated"
proof -
  have subs: "market_data_subscribers throwing_bus = [cb_throw_other ''X'', cb_log ''B'']"
    by (simp add: throwing_bus_def market_data_subscribers_simps)
  have rb: "ring_buffer throwing_bus =
      \<lparr>buffer = (\<lambda>_. MessageWrapper_new)(0 := envelope tick1 1), read_index = 0, write_index = 1\<rparr>"
    by (simp add: throwing_bus_def publish_unfold subscribe_def MessageBus_new_def
        RingBuffer_new_def write_rb_def DEFAULT_RING_BUFFER_SIZE_def)
  have ne: "\<not> is_empty DEFAULT_RING_BUFFER_SIZE (ring_buffer throwing_bus)"
    unfolding rb by (simp add: is_empty_def)
  have pc: "processed_count throwing_bus = 0" "published_count throwing_bus = 1"
    by (simp_all add: throwing_bus_def publish_unfold subscribe_def MessageBus_new_def
        RingBuffer_new_def write_rb_def DEFAULT_RING_BUFFER_SIZE_def)
  have it: "process_iteration throwing_bus [] =
       Inl (throwing_bus\<lparr>ring_buffer := (ring_buffer throwing_bus)\<lparr>read_index := 1\<rparr>\<rparr>,
            [(''X'', 1)])"
    unfolding process_iteration_not_empty [OF ne] subs
    by (simp add: rb Let_def cb_throw_other_def tick_of_def envelope_def
        DEFAULT_RING_BUFFER_SIZE_def)
  have sz: "get_size
        (throwing_bus\<lparr>ring_buffer := (ring_buffer throwing_bus)\<lparr>read_index := 1\<rparr>\<rparr>) = 0"
    by (simp add: get_size_def size_rb_def rb)
  have inv: "bus_inv throwing_bus"
    by (simp add: bus_inv_def rb_inv_def rb DEFAULT_RING_BUFFER_SIZE_def)
  have sz0: "get_size throwing_bus = 1"
    by (simp add: get_size_def size_rb_def rb DEFAULT_RING_BUFFER_SIZE_def)
  have r: "run [Subscribe ''market_data'' (cb_throw_other ''X''),
           Subscribe ''market_data'' (cb_log ''B''),
           Publish ''market_data'' tick1, Iterate] (system_new []) = Inl Terminated"
    using it by (simp add: step_Publish system_new_def throwing_bus_def del: step.simps(1))
  from it pc sz inv sz0 r show ?thesis by simp
qed

text \<open>
  Claim C2, amended. After any run from a new bus (publishes, passes of the consumer
  loop, registrations and changes of the delay, but no \<open>reset_counters\<close>) in which no
  registered callback throws a value outside \<open>std::exception\<close>, the bus satisfies
  \<open>processed_count + size() = published_count\<close>, in \<open>uint64_t\<close> arithmetic: such a run
  does not end early, and neither does a pass of the loop over a bus whose subscribers
  are all of this kind. Each call preserves the equation on a bus whose indices are in
  range: \<open>publish\<close>, a pass of the loop that ends normally, \<open>subscribe\<close> and
  \<open>set_processing_delay_ms\<close>; the \<open>get_\<close> accessors do not change the bus at all.
\<close>

theorem counters_balance:
  "(run ops (system_new w) = Inr s \<longrightarrow>
      processed_count (bus s) + get_size (bus s) = published_count (bus s))
   \<and> (bus_inv b \<and> processed_count b + get_size b = published_count b \<longrightarrow>
        processed_count (snd (publish topic data b)) + get_size (snd (publish topic data b))
          = published_count (snd (publish topic data b))
      \<and> (process_iteration b w' = Inr r \<longrightarrow>
            processed_count (bus_after r) + get_size (bus_after r) = published_count (bus_after r))
      \<and> processed_count (subscribe topic cb b) + get_size (subscribe topic cb b)
          = published_count (subscribe topic cb b)
      \<and> processed_count (set_processing_delay_ms ms b) + get_size (set_processing_delay_ms ms b)
          = published_count (set_processing_delay_ms ms b))
   \<and> ((\<forall>x \<in> set ops. safe_op x) \<longrightarrow> (\<exists>s. run ops (system_new w) = Inr s))
   \<and> (safe_bus b \<longrightarrow> (\<exists>r'. process_iteration b w' = Inr r'))"
proof -
  have e: "\<exists>s. run ops (system_new w) = Inr s" if "\<forall>x \<in> set ops. safe_op x"
    using run_safe_new [OF that, of w] by blast
  have f: "\<exists>r'. process_iteration b w' = Inr r'" if "safe_bus b"
    using process_iteration_total [OF that] by blast
  have a: "processed_count (bus s) + get_size (bus s) = published_count (bus s)"
    if "run ops (system_new w) = Inr s"
  proof -
    have i: "bus_inv (bus (system_new w))" "balanced (bus (system_new w))"
      by (simp_all add: system_new_def bus_inv_new balanced_new)
    from run_balanced [OF that i] show ?thesis by (simp add: balanced_def)
  qed
  have b: "processed_count (snd (publish topic data b)) + get_size (snd (publish topic data b))
          = published_count (snd (publish topic data b))"
    if "bus_inv b" and "processed_count b + get_size b = published_count b"
    using publish_balanced [of b topic data] that by (simp add: balanced_def)
  have c: "processed_count (bus_after r) + get_size (bus_after r) = published_count (bus_after r)"
    if "bus_inv b" and "processed_count b + get_size b = published_count b"
      and "process_iteration b w' = Inr r"
    using process_iteration_balanced [OF that(3)] that(1,2) by (simp add: balanced_def)
  have d: "processed_count (subscribe topic cb b) + get_size (subscribe topic cb b)
          = published_count (subscribe topic cb b)"
    "processed_count (set_processing_delay_ms ms b) + get_size (set_processing_delay_ms ms b)
          = published_count (set_processing_delay_ms ms b)"
    if "processed_count b + get_size b = published_count b"
    using that by (simp_all add: subscribe_def set_processing_delay_ms_def get_size_def)
  from a b c d e f show ?thesis by blast
qed

text \<open>
  Instances: a run of six calls with two publishes and three passes; and the calls one
  by one on a new bus.
\<close>

lemma step_Iterate_Inr:
  "process_iteration (bus s) (world s) = Inr r \<Longrightarrow>
   step Iterate s =
     Inr (s\<lparr>bus := bus_after r, world := world_after r,
            consumed := consumed s @ (case delivered r of None \<Rightarrow> [] | Some data \<Rightarrow> [data])\<rparr>)"
  by simp

theorem counters_balance_witness:
  "(\<exists>s. run [Subscribe ''market_data'' (cb_throw ''T''),
            Publish ''market_data'' tick1, Publish ''market_data'' tick2, Iterate,
            Set_processing_delay_ms 3, Iterate, Iterate] (system_new []) = Inr s
     \<and> processed_count (bus s) + get_size (bus s) = published_count (bus s)
     \<and> published_count (bus s) = 2
     \<and> processed_count (bus s) = 2
     \<and> get_size (bus s) = 0
     \<and> world s = [(''T'', 1), (''T'', 2)])
   \<and> bus_inv (MessageBus_new :: unit MessageBus)
   \<and> processed_count (MessageBus_new :: unit MessageBus) + get_size (MessageBus_new :: unit MessageBus)
       = published_count (MessageBus_new :: unit MessageBus)
   \<and> get_size (snd (publish ''market_data'' tick1 (MessageBus_new :: unit MessageBus))) = 1
   \<and> safe_bus (MessageBus_new :: unit MessageBus)
   \<and> (\<exists>r. process_iteration (MessageBus_new :: unit MessageBus) () = Inr r
          \<and> processed_count (bus_after r) + get_size (bus_after r) = published_count (bus_after r))"
proof -
  let ?ops = "[Subscribe ''market_data'' (cb_throw ''T''),
            Publish ''market_data'' tick1, Publish ''market_data'' tick2, Iterate,
            Set_processing_delay_ms 3, Iterate, Iterate] :: (string \<times> uint64_t) list op list"
  let ?new = "MessageBus_new :: unit MessageBus"
  have safe: "\<forall>x \<in> set ?ops. safe_op x"
    by (simp add: safe_callback_def cb_throw_def)
  note L = counters_balance [of ?ops "[]" _ MessageBus_new "''market_data''" tick1 "[]" _
      "cb_throw ''T''" 0]
  from L safe obtain s where s: "run ?ops (system_new []) = Inr s"
    by blast
  from s have p: "published_count (bus s) = 2" "processed_count (bus s) = 2"
    and w: "world s = [(''T'', 1), (''T'', 2)]"
    by (auto simp: system_new_def MessageBus_new_def RingBuffer_new_def publish_unfold write_rb_def
        process_iteration_def read_rb_def set_processing_delay_ms_def subscribe_def
        DEFAULT_RING_BUFFER_SIZE_def Let_def MessageType_only [of "type _"]
        cb_throw_def tick_of_def envelope_def)
  from counters_balance [of ?ops "[]" s MessageBus_new "''market_data''" tick1 "[]" _
      "cb_throw ''T''" 0] s
  have e: "processed_count (bus s) + get_size (bus s) = published_count (bus s)"
    by blast
  with p have z: "get_size (bus s) = 0" by simp
  have e0: "is_empty DEFAULT_RING_BUFFER_SIZE (ring_buffer ?new)"
    by (simp add: MessageBus_new_def RingBuffer_new_def is_empty_def)
  define r where "r = \<lparr>bus_after = ?new, world_after = (), delivered = None, slept = sleep_of ?new\<rparr>"
  have r: "process_iteration ?new () = Inr r"
    by (simp add: process_iteration_empty [OF e0] r_def)
  have n0: "processed_count ?new + get_size ?new = published_count ?new"
    using balanced_new [where ?'a = unit] by (simp add: balanced_def)
  note A = counters_balance [of "[]" "()" "system_new ()" ?new "''market_data''" tick1 "()" r
      "\<lambda>d w. (Returned, w)" 0]
  from A bus_inv_new n0
  have b1: "processed_count (snd (publish ''market_data'' tick1 ?new))
          + get_size (snd (publish ''market_data'' tick1 ?new))
          = published_count (snd (publish ''market_data'' tick1 ?new))"
    by blast
  have "processed_count (snd (publish ''market_data'' tick1 ?new)) = 0"
    "published_count (snd (publish ''market_data'' tick1 ?new)) = 1"
    by (simp_all add: publish_not_full [OF bus_inv_new] publish_unfold MessageBus_new_def
        RingBuffer_new_def write_rb_def DEFAULT_RING_BUFFER_SIZE_def)
  with b1 have b2: "get_size (snd (publish ''market_data'' tick1 ?new)) = 1"
    by simp
  from A bus_inv_new n0 r
  have c1: "processed_count (bus_after r) + get_size (bus_after r) = published_count (bus_after r)"
    by blast
  from A safe_bus_new have tot: "\<exists>r'. process_iteration ?new () = Inr r'"
    by blast
  from s e p z w b2 r c1 n0 tot bus_inv_new [where ?'a = unit] safe_bus_new [where ?'a = unit]
  show ?thesis
    by blast
qed

section \<open>Order of delivery\<close>

lemma publish_pending:
  assumes "bus_inv b"
  shows "pending (snd (publish topic data b)) =
           pending b @ (if fst (publish topic data b) then [envelope data (sequence b + 1)] else [])"
proof (cases "is_full DEFAULT_RING_BUFFER_SIZE (ring_buffer b)")
  case True
  with assms show ?thesis by (simp add: publish_full pending_def)
next
  case False
  with assms write_rb_items_ok [OF DEFAULT_ok, of "ring_buffer b" "envelope data (sequence b + 1)"]
  show ?thesis by (simp add: publish_not_full pending_def bus_inv_def)
qed

lemma process_iteration_pending:
  assumes "process_iteration b w = Inr r" and "bus_inv b"
  shows "map tick_of (pending b) =
           (case delivered r of None \<Rightarrow> [] | Some d \<Rightarrow> [d]) @ map tick_of (pending (bus_after r))"
proof (cases "is_empty DEFAULT_RING_BUFFER_SIZE (ring_buffer b)")
  case True
  with assms(2) have "pending b = []"
    by (simp add: pending_def bus_inv_def rb_items_empty_ok DEFAULT_ok)
  with True show ?thesis
    by (simp add: process_iteration_Inr [OF assms(1)] read_rb_empty pending_def)
next
  case False
  with assms(2) have "rb_items DEFAULT_RING_BUFFER_SIZE (ring_buffer b) =
      fst (snd (read_rb DEFAULT_RING_BUFFER_SIZE MessageWrapper_new (ring_buffer b))) #
      rb_items DEFAULT_RING_BUFFER_SIZE
        (snd (snd (read_rb DEFAULT_RING_BUFFER_SIZE MessageWrapper_new (ring_buffer b))))"
    by (intro read_rb_items_ok DEFAULT_ok) (simp_all add: bus_inv_def)
  with False show ?thesis
    by (simp add: process_iteration_Inr [OF assms(1)] pending_def)
qed

lemma step_fifo:
  assumes "step x s = Inr s'" and "bus_inv (bus s)" and "fifo s"
  shows "fifo s'"
proof (cases x)
  case (Publish topic data)
  with assms publish_pending [OF assms(2), of topic data] show ?thesis
    by (auto simp: step_Publish fifo_def simp del: step.simps)
next
  case Iterate
  with assms(1) obtain r where r: "process_iteration (bus s) (world s) = Inr r"
    and s': "s' = s\<lparr>bus := bus_after r, world := world_after r,
            consumed := consumed s @ (case delivered r of None \<Rightarrow> [] | Some data \<Rightarrow> [data])\<rparr>"
    by (auto split: sum.splits)
  from process_iteration_pending [OF r assms(2)] assms(3) show ?thesis
    by (simp add: s' fifo_def)
next
  case (Subscribe topic callback)
  with assms show ?thesis by (auto simp: subscribe_def fifo_def pending_def)
next
  case (Set_processing_delay_ms ms)
  with assms show ?thesis by (auto simp: set_processing_delay_ms_def fifo_def pending_def)
qed

lemma run_fifo:
  "run ops s = Inr s' \<Longrightarrow> bus_inv (bus s) \<Longrightarrow> fifo s \<Longrightarrow> bus_inv (bus s') \<and> fifo s'"
proof (induction ops arbitrary: s)
  case Nil
  then show ?case by simp
next
  case (Cons x xs)
  from Cons.prems(1) obtain s1 where s1: "step x s = Inr s1" and r: "run xs s1 = Inr s'"
    by (auto split: sum.splits)
  from step_bus_inv [OF s1 Cons.prems(2)] step_fifo [OF s1 Cons.prems(2,3)]
  show ?case by (intro Cons.IH [OF r])
qed

lemma fifo_new: "fifo (system_new w)"
  by (simp add: fifo_def system_new_def pending_def rb_items_def MessageBus_new_def
      RingBuffer_new_def size_rb_def)


lemma unat_succ64:
  fixes x :: uint64_t
  assumes "unat x + 1 < 2 ^ 64"
  shows "unat (x + 1) = unat x + 1"
proof -
  have "unat (x + 1) = (unat x + 1) mod 2 ^ LENGTH(64)"
    by (simp add: unat_word_ariths)
  also have "\<dots> = unat x + 1" using assms by simp
  finally show ?thesis .
qed

lemma step_seqs_ok:
  assumes "step x s = Inr s'" and "seqs_ok s"
    and "unat (sequence (bus s)) + (if is_Publish x then 1 else 0) < 2 ^ 64"
  shows "seqs_ok s'"
    and "unat (sequence (bus s')) = unat (sequence (bus s)) + (if is_Publish x then 1 else 0)"
proof -
  have "seqs_ok s' \<and>
      unat (sequence (bus s')) = unat (sequence (bus s)) + (if is_Publish x then 1 else 0)"
  proof (cases x)
    case (Publish topic data)
    from assms(3) Publish have u: "unat (sequence (bus s) + 1) = unat (sequence (bus s)) + 1"
      by (intro unat_succ64) simp
    have e: "seq (market_data (envelope data (sequence (bus s) + 1))) = sequence (bus s) + 1"
      by (simp add: envelope_def)
    have q: "sequence (snd (publish topic data (bus s))) = sequence (bus s) + 1"
      by (simp add: publish_unfold)
    from assms(2) have old: "unat (seq (market_data e)) \<le> unat (sequence (bus s))"
      if "e \<in> set (accepted s)" for e
      using that by (simp add: seqs_ok_def)
    have lt: "unat (seq (market_data e)) < unat (sequence (bus s)) + 1"
      and le: "unat (seq (market_data e)) \<le> unat (sequence (bus s)) + 1"
      if "e \<in> set (accepted s)" for e
      using old [OF that] by simp_all
    from assms(1) have s': "s' = s\<lparr>bus := snd (publish topic data (bus s)),
            accepted := accepted s @
              (if fst (publish topic data (bus s))
               then [envelope data (sequence (bus s) + 1)] else [])\<rparr>"
      unfolding Publish step_Publish by simp
    from assms(2) have srt: "sorted_wrt (<) (map (\<lambda>e. unat (seq (market_data e))) (accepted s))"
      by (simp add: seqs_ok_def)
    show ?thesis
      unfolding s' seqs_ok_def Publish
      using srt lt le by (auto simp: sorted_wrt_append e q u)
  next
    case Iterate
    with assms(1) obtain r where r: "process_iteration (bus s) (world s) = Inr r"
      and s': "s' = s\<lparr>bus := bus_after r, world := world_after r,
            consumed := consumed s @ (case delivered r of None \<Rightarrow> [] | Some data \<Rightarrow> [data])\<rparr>"
      by (auto split: sum.splits)
    from assms(2) process_iteration_frame(1) [OF r] show ?thesis
      by (simp add: s' seqs_ok_def Iterate)
  next
    case (Subscribe topic callback)
    with assms show ?thesis by (auto simp: subscribe_def seqs_ok_def)
  next
    case (Set_processing_delay_ms ms)
    with assms show ?thesis by (auto simp: set_processing_delay_ms_def seqs_ok_def)
  qed
  then show "seqs_ok s'"
    and "unat (sequence (bus s')) = unat (sequence (bus s)) + (if is_Publish x then 1 else 0)"
    by simp_all
qed

lemma run_seqs_ok:
  "run ops s = Inr s' \<Longrightarrow> seqs_ok s \<Longrightarrow>
   unat (sequence (bus s)) + length (filter is_Publish ops) < 2 ^ 64 \<Longrightarrow> seqs_ok s'"
proof (induction ops arbitrary: s)
  case Nil
  then show ?case by simp
next
  case (Cons x xs)
  from Cons.prems(1) obtain s1 where s1: "step x s = Inr s1" and r: "run xs s1 = Inr s'"
    by (auto split: sum.splits)
  from Cons.prems(3)
  have b: "unat (sequence (bus s)) + (if is_Publish x then 1 else 0) < 2 ^ 64"
    by (simp split: if_splits)
  from step_seqs_ok [OF s1 Cons.prems(2) b] Cons.prems(3)
  have "seqs_ok s1" and "unat (sequence (bus s1)) + length (filter is_Publish xs) < 2 ^ 64"
    by (simp_all split: if_splits)
  then show ?case by (intro Cons.IH [OF r])
qed

lemma seqs_ok_new: "seqs_ok (system_new w)"
  by (simp add: seqs_ok_def system_new_def)


lemma step_grows:
  assumes "step x s = Inr s'"
  shows "\<exists>a. accepted s' = accepted s @ a"
  using assms
  by (cases x) (auto simp: step_Publish split: sum.splits simp del: step.simps(1))

lemma run_grows:
  "run ops s = Inr s' \<Longrightarrow> \<exists>a. accepted s' = accepted s @ a"
proof (induction ops arbitrary: s)
  case Nil
  then show ?case by simp
next
  case (Cons x xs)
  from Cons.prems obtain s1 where s1: "step x s = Inr s1" and r: "run xs s1 = Inr s'"
    by (auto split: sum.splits)
  from step_grows [OF s1] Cons.IH [OF r] show ?case by auto
qed

lemma process_iteration_idle:
  assumes "process_iteration b w = Inr r" and "bus_inv b" and "delivered r = None"
  shows "pending b = []"
proof -
  from assms(1,3) have "is_empty DEFAULT_RING_BUFFER_SIZE (ring_buffer b)"
    by (simp add: process_iteration_Inr(2) split: if_splits)
  with assms(2) show ?thesis
    by (simp add: pending_def bus_inv_def rb_items_empty_ok DEFAULT_ok)
qed

lemma step_progress:
  assumes "step x s = Inr s'" and "bus_inv (bus s)" and "fifo s" and "A \<le> length (accepted s)"
  shows "min A (length (consumed s) + (if is_Iterate x then 1 else 0)) \<le> length (consumed s')"
proof (cases x)
  case (Publish topic data)
  with assms(1) show ?thesis by (auto simp: split_beta)
next
  case Iterate
  with assms(1) obtain r where r: "process_iteration (bus s) (world s) = Inr r"
    and s': "s' = s\<lparr>bus := bus_after r, world := world_after r,
            consumed := consumed s @ (case delivered r of None \<Rightarrow> [] | Some data \<Rightarrow> [data])\<rparr>"
    by (auto split: sum.splits)
  show ?thesis
  proof (cases "delivered r")
    case None
    from process_iteration_idle [OF r assms(2) None] assms(3)
    have "length (consumed s) = length (accepted s)"
      by (simp add: fifo_def)
    with assms(4) None show ?thesis by (simp add: s' Iterate)
  next
    case (Some d)
    then show ?thesis by (simp add: s' Iterate)
  qed
next
  case (Subscribe topic callback)
  with assms(1) show ?thesis by auto
next
  case (Set_processing_delay_ms ms)
  with assms(1) show ?thesis by auto
qed

lemma run_progress:
  "run ops s = Inr s' \<Longrightarrow> bus_inv (bus s) \<Longrightarrow> fifo s \<Longrightarrow> A \<le> length (accepted s) \<Longrightarrow>
     min A (length (consumed s) + length (filter is_Iterate ops)) \<le> length (consumed s')"
proof (induction ops arbitrary: s)
  case Nil
  then show ?case by simp
next
  case (Cons x xs)
  from Cons.prems(1) obtain s1 where s1: "step x s = Inr s1" and r: "run xs s1 = Inr s'"
    by (auto split: sum.splits)
  from step_grows [OF s1] Cons.prems(4) have A: "A \<le> length (accepted s1)" by auto
  from step_progress [OF s1 Cons.prems(2,3,4)]
  have p: "min A (length (consumed s) + (if is_Iterate x then 1 else 0)) \<le> length (consumed s1)" .
  from Cons.IH [OF r step_bus_inv [OF s1 Cons.prems(2)] step_fifo [OF s1 Cons.prems(2,3)] A]
  have q: "min A (length (consumed s1) + length (filter is_Iterate xs)) \<le> length (consumed s')" .
  from p q show ?case by (auto simp: min_def split: if_splits)
qed


lemma seq_tick_of: "seq (tick_of e) = seq (market_data e)"
  by (simp add: tick_of_def)

lemma run_drain:
  assumes run: "run ops (system_new w) = Inr s" and safe: "\<forall>x \<in> set ops. safe_op x"
  shows "\<exists>s'. run (replicate (length (pending (bus s))) Iterate) s = Inr s'
           \<and> consumed s' = map tick_of (accepted s) \<and> pending (bus s') = []"
proof -
  let ?ops' = "replicate (length (pending (bus s))) Iterate :: 'a op list"
  have i: "bus_inv (bus (system_new w))" "fifo (system_new w)"
    by (simp_all add: fifo_new) (simp add: system_new_def bus_inv_new)
  from run_fifo [OF run i] have inv: "bus_inv (bus s)" and fifo: "fifo s" by simp_all
  from run_safe_new [OF safe, of w] run have "safe_bus (bus s)" by simp
  from run_total [OF this, of ?ops'] obtain s' where run': "run ?ops' s = Inr s'"
    by auto
  from run_accepted_same [OF run'] have acc: "accepted s' = accepted s" by simp
  from run_fifo [OF run' inv fifo]
  have f': "consumed s' @ map tick_of (pending (bus s')) = map tick_of (accepted s)"
    by (simp add: fifo_def acc)
  from fifo have "length (consumed s) + length (pending (bus s)) = length (accepted s)"
    unfolding fifo_def by (metis length_append length_map)
  with run_progress [OF run' inv fifo, of "length (accepted s)"]
  have "length (accepted s) \<le> length (consumed s')" by simp
  moreover from f' have "length (consumed s') + length (pending (bus s')) = length (accepted s)"
    by (metis length_append length_map)
  ultimately have "length (pending (bus s')) = 0" by linarith
  then have "pending (bus s') = []" by simp
  with f' run' show ?thesis by simp
qed

text \<open>The order and the progress of a run that has not ended early.\<close>

lemma run_order:
  "run ops (system_new w) = Inr s \<longrightarrow>
     consumed s @ map tick_of (pending (bus s)) = map tick_of (accepted s)
   \<and> (length (filter is_Publish ops) < 2 ^ 64 \<longrightarrow>
        sorted_wrt (<) (map (\<lambda>e. unat (seq (market_data e))) (accepted s))
      \<and> sorted_wrt (<) (map (\<lambda>d. unat (seq d)) (consumed s)))
   \<and> (run ops' s = Inr s' \<and> length (pending (bus s)) \<le> length (filter is_Iterate ops') \<longrightarrow>
        take (length (accepted s)) (consumed s') = map tick_of (accepted s))"
proof
  assume run: "run ops (system_new w) = Inr s"
  have i: "bus_inv (bus (system_new w))" "fifo (system_new w)"
    by (simp_all add: fifo_new) (simp add: system_new_def bus_inv_new)
  from run_fifo [OF run i] have inv: "bus_inv (bus s)" and fifo: "fifo s" by simp_all
  from fifo have order: "consumed s @ map tick_of (pending (bus s)) = map tick_of (accepted s)"
    by (simp add: fifo_def)
  have incr: "sorted_wrt (<) (map (\<lambda>e. unat (seq (market_data e))) (accepted s))
      \<and> sorted_wrt (<) (map (\<lambda>d. unat (seq d)) (consumed s))"
    if "length (filter is_Publish ops) < 2 ^ 64"
  proof -
    have "unat (sequence (bus (system_new w))) + length (filter is_Publish ops) < 2 ^ 64"
      using that by (simp add: system_new_def MessageBus_new_def)
    from run_seqs_ok [OF run seqs_ok_new this]
    have a: "sorted_wrt (<) (map (\<lambda>e. unat (seq (market_data e))) (accepted s))"
      by (simp add: seqs_ok_def)
    have "map (\<lambda>d. unat (seq d)) (consumed s) @ map (\<lambda>d. unat (seq d)) (map tick_of (pending (bus s)))
          = map (\<lambda>d. unat (seq d)) (map tick_of (accepted s))"
      by (simp only: order [symmetric] map_append)
    also have "\<dots> = map (\<lambda>e. unat (seq (market_data e))) (accepted s)"
      by (simp add: seq_tick_of)
    finally have "sorted_wrt (<) (map (\<lambda>d. unat (seq d)) (consumed s) @
        map (\<lambda>d. unat (seq d)) (map tick_of (pending (bus s))))"
      using a by simp
    then have "sorted_wrt (<) (map (\<lambda>d. unat (seq d)) (consumed s))"
      by (simp only: sorted_wrt_append)
    with a show ?thesis by simp
  qed
  have drain: "take (length (accepted s)) (consumed s') = map tick_of (accepted s)"
    if run': "run ops' s = Inr s'"
      and enough: "length (pending (bus s)) \<le> length (filter is_Iterate ops')"
  proof -
    from order have "length (consumed s) + length (pending (bus s)) = length (accepted s)"
      by (metis length_append length_map)
    with enough have "length (accepted s) \<le> length (consumed s) + length (filter is_Iterate ops')"
      by simp
    with run_progress [OF run' inv fifo, of "length (accepted s)"]
    have len: "length (accepted s) \<le> length (consumed s')" by simp
    from run_fifo [OF run' inv fifo]
    have "consumed s' @ map tick_of (pending (bus s')) = map tick_of (accepted s')"
      by (simp add: fifo_def)
    moreover from run_grows [OF run'] obtain a where "accepted s' = accepted s @ a" by blast
    ultimately have "consumed s' @ map tick_of (pending (bus s'))
        = map tick_of (accepted s) @ map tick_of a"
      by simp
    then have "take (length (accepted s)) (consumed s' @ map tick_of (pending (bus s')))
        = take (length (accepted s)) (map tick_of (accepted s) @ map tick_of a)"
      by simp
    with len show ?thesis by simp
  qed
  from order incr drain
  show "consumed s @ map tick_of (pending (bus s)) = map tick_of (accepted s)
   \<and> (length (filter is_Publish ops) < 2 ^ 64 \<longrightarrow>
        sorted_wrt (<) (map (\<lambda>e. unat (seq (market_data e))) (accepted s))
      \<and> sorted_wrt (<) (map (\<lambda>d. unat (seq d)) (consumed s)))
   \<and> (run ops' s = Inr s' \<and> length (pending (bus s)) \<le> length (filter is_Iterate ops') \<longrightarrow>
        take (length (accepted s)) (consumed s') = map tick_of (accepted s))"
    by blast
qed

text \<open>Sequence numbers are the call numbers of the publishes.\<close>

lemma step_numbered:
  assumes "step x s = Inr s'" and "sequence (bus s) = word_of_nat n" and "numbered n s ks"
  shows "\<exists>ks'. numbered (n + (if is_Publish x then 1 else 0)) s' ks'"
proof (cases x)
  case (Publish topic data)
  from assms(1) have s': "s' = s\<lparr>bus := snd (publish topic data (bus s)),
            accepted := accepted s @
              (if fst (publish topic data (bus s))
               then [envelope data (sequence (bus s) + 1)] else [])\<rparr>"
    unfolding Publish step_Publish by simp
  have e: "seq (market_data (envelope data (sequence (bus s) + 1))) = word_of_nat (n + 1)"
    by (simp add: envelope_def assms(2))
  show ?thesis
  proof (cases "fst (publish topic data (bus s))")
    case True
    from assms(3) have "numbered (n + 1) s' (ks @ [n + 1])"
      unfolding numbered_def s' using True e
      by (auto simp: sorted_wrt_append)
    with Publish show ?thesis by auto
  next
    case False
    from assms(3) have "numbered (n + 1) s' ks"
      unfolding numbered_def s' using False by auto
    with Publish show ?thesis by auto
  qed
next
  case Iterate
  with assms(1) have "accepted s' = accepted s" by (auto split: sum.splits)
  with assms(3) Iterate show ?thesis by (auto simp: numbered_def)
next
  case (Subscribe topic callback)
  with assms(1) have "accepted s' = accepted s" by auto
  with assms(3) Subscribe show ?thesis by (auto simp: numbered_def)
next
  case (Set_processing_delay_ms ms)
  with assms(1) have "accepted s' = accepted s" by auto
  with assms(3) Set_processing_delay_ms show ?thesis by (auto simp: numbered_def)
qed

lemma run_numbered:
  "run ops s = Inr s' \<Longrightarrow> sequence (bus s) = word_of_nat n \<Longrightarrow> numbered n s ks \<Longrightarrow>
     \<exists>ks'. numbered (n + length (filter is_Publish ops)) s' ks'"
proof (induction ops arbitrary: s n ks)
  case Nil
  then show ?case by auto
next
  case (Cons x xs)
  from Cons.prems(1) obtain s1 where s1: "step x s = Inr s1" and r: "run xs s1 = Inr s'"
    by (auto split: sum.splits)
  let ?n1 = "n + (if is_Publish x then 1 else 0)"
  from step_numbered [OF s1 Cons.prems(2,3)] obtain ks1 where k1: "numbered ?n1 s1 ks1"
    by blast
  from step_sequence [OF s1] Cons.prems(2) have q: "sequence (bus s1) = word_of_nat ?n1"
    by simp
  from Cons.IH [OF r q k1] show ?case
    by (simp add: add.assoc split: if_splits)
qed

lemma numbered_new: "numbered 0 (system_new w) []"
  by (simp add: numbered_def system_new_def)

lemma run_numbered_new:
  assumes "run ops (system_new w) = Inr s"
  shows "\<exists>ks. numbered (length (filter is_Publish ops)) s ks"
  using run_numbered [OF assms _ numbered_new]
  by (simp add: system_new_def MessageBus_new_def)


lemma run_call_numbers:
  assumes run: "run ops (system_new w) = Inr s"
  shows "\<exists>ks. sorted_wrt (<) ks
           \<and> set ks \<subseteq> {1..length (filter is_Publish ops)}
           \<and> map (\<lambda>e. seq (market_data e)) (accepted s) = map word_of_nat ks
           \<and> map seq (consumed s) = map word_of_nat (take (length (consumed s)) ks)"
proof -
  from run_numbered_new [OF run] obtain ks
    where ks: "numbered (length (filter is_Publish ops)) s ks" by blast
  then have a: "map (\<lambda>e. seq (market_data e)) (accepted s) = map word_of_nat ks"
    by (simp add: numbered_def)
  from run_order [of ops w s] run
  have "consumed s @ map tick_of (pending (bus s)) = map tick_of (accepted s)"
    by blast
  then have "map seq (consumed s) @ map seq (map tick_of (pending (bus s)))
      = map seq (map tick_of (accepted s))"
    by (metis map_append)
  also have "\<dots> = map (\<lambda>e. seq (market_data e)) (accepted s)"
    by (simp add: seq_tick_of)
  finally have "map seq (consumed s) @ map seq (map tick_of (pending (bus s))) = map word_of_nat ks"
    by (simp only: a)
  then have "take (length (consumed s)) (map seq (consumed s) @ map seq (map tick_of (pending (bus s))))
      = take (length (consumed s)) (map word_of_nat ks)"
    by simp
  then have c: "map seq (consumed s) = map word_of_nat (take (length (consumed s)) ks)"
    by (simp add: take_map)
  from ks have "sorted_wrt (<) ks" "set ks \<subseteq> {1..length (filter is_Publish ops)}"
    by (auto simp: numbered_def)
  with a c show ?thesis by blast
qed

text \<open>
  The ticks of a run, seen from the caller: every accepted envelope is built from the
  tick handed to its publish and the number of that call.
\<close>

lemma carries_envelope: "carries d k (tick_of (envelope d (word_of_nat k)))"
proof -
  have "copy_chars 16 (copy_chars 16 (symbol d)) = copy_chars 16 (symbol d)"
    "copy_chars 32 (copy_chars 32 (source d)) = copy_chars 32 (source d)"
    by (simp_all add: copy_chars_idem)
  moreover have "copy_chars 16 (symbol d) =
      take 15 (c_str (symbol d)) @ replicate (16 - length (take 15 (c_str (symbol d)))) NUL"
    "copy_chars 32 (source d) =
      take 31 (c_str (source d)) @ replicate (32 - length (take 31 (c_str (source d)))) NUL"
    using copy_chars_c_str [of 16 "symbol d"] copy_chars_c_str [of 32 "source d"] by simp_all
  ultimately show ?thesis
    by (simp only: carries_def tick_of_def envelope_def MarketData.simps MessageWrapper.simps simp_thms)
qed

lemma run_published_ticks:
  "run ops s = Inr s' \<Longrightarrow> sequence (bus s) = word_of_nat n \<Longrightarrow>
     accepted s' = accepted s @ map (\<lambda>(d, k). envelope d (word_of_nat k)) (published_ticks n ops s)"
proof (induction ops arbitrary: s n)
  case Nil
  then show ?case by simp
next
  case (Cons x xs)
  from Cons.prems(1) obtain s1 where s1: "step x s = Inr s1" and r: "run xs s1 = Inr s'"
    by (auto split: sum.splits)
  let ?n1 = "if is_Publish x then Suc n else n"
  from step_sequence [OF s1] Cons.prems(2) have q: "sequence (bus s1) = word_of_nat ?n1"
    by simp
  have a1: "accepted s1 = accepted s @ map (\<lambda>(d, k). envelope d (word_of_nat k))
      (case x of Publish topic data \<Rightarrow>
               if fst (publish topic data (bus s)) then [(data, Suc n)] else []
           | _ \<Rightarrow> [])"
  proof (cases x)
    case (Publish topic data)
    with s1 show ?thesis
      by (auto simp: step_Publish Cons.prems(2) add.commute simp del: step.simps(1))
  next
    case Iterate
    with s1 show ?thesis by (auto split: sum.splits)
  next
    case (Subscribe topic callback)
    with s1 show ?thesis by auto
  next
    case (Set_processing_delay_ms ms)
    with s1 show ?thesis by auto
  qed
  from Cons.IH [OF r q] a1 s1 show ?case
    using s1 by (simp del: step.simps)
qed

lemma published_ticks_numbers:
  "sorted_wrt (<) (map snd (published_ticks n ops s))
   \<and> (\<forall>k \<in> set (map snd (published_ticks n ops s)).
         n < k \<and> k \<le> n + length (filter is_Publish ops))"
proof (induction ops arbitrary: s n)
  case Nil
  then show ?case by simp
next
  case (Cons x xs)
  show ?case
  proof (cases "step x s")
    case (Inl e)
    then show ?thesis by (simp del: step.simps)
  next
    case (Inr s1)
    let ?n1 = "if is_Publish x then Suc n else n"
    note IH = Cons.IH [of ?n1 s1]
    show ?thesis
    proof (cases x)
      case (Publish topic data)
      with IH Inr show ?thesis
        by (auto simp: sorted_wrt_append simp del: step.simps)
    next
      case Iterate
      with IH Inr show ?thesis by (auto simp del: step.simps)
    next
      case (Subscribe topic callback)
      with IH Inr show ?thesis by (auto simp del: step.simps)
    next
      case (Set_processing_delay_ms ms)
      with IH Inr show ?thesis by (auto simp del: step.simps)
    qed
  qed
qed

lemma list_all2_carries:
  "list_all2 (\<lambda>(d, k) t. carries d k t) P
     (map tick_of (map (\<lambda>(d, k). envelope d (word_of_nat k)) P))"
  by (induction P) (auto simp: carries_envelope)

lemma run_carries:
  assumes run: "run ops (system_new w) = Inr s"
  shows "map tick_of (accepted s) =
           map tick_of (map (\<lambda>(d, k). envelope d (word_of_nat k))
             (published_ticks 0 ops (system_new w)))"
  using run_published_ticks [OF run, of 0]
  by (simp add: system_new_def MessageBus_new_def)

text \<open>
  Claim C1 says that every successfully published tick is eventually read. It is not,
  when a subscriber throws a value outside \<open>std::exception\<close>: with two ticks published,
  the first pass of the consumer loop reads the first tick and calls the subscriber,
  neither handler catches the value, and the exception leaves \<open>process_messages\<close>
  although the run flag would have allowed three passes. The second tick, price 101 and
  sequence number 2, stays in the ring buffer and the consumer has ended.
\<close>

theorem escape_strands_tick:
  "fst (publish ''market_data'' tick1
         (subscribe ''market_data'' (cb_throw_other ''X'') MessageBus_new))
   \<and> fst (publish ''market_data'' tick2
         (snd (publish ''market_data'' tick1
           (subscribe ''market_data'' (cb_throw_other ''X'') MessageBus_new))))
   \<and> pending stranded_bus = [envelope tick1 1, envelope tick2 2]
   \<and> process_iteration stranded_bus [] =
       Inl (stranded_bus\<lparr>ring_buffer := (ring_buffer stranded_bus)\<lparr>read_index := 1\<rparr>\<rparr>,
            [(''X'', 1)])
   \<and> pending (stranded_bus\<lparr>ring_buffer := (ring_buffer stranded_bus)\<lparr>read_index := 1\<rparr>\<rparr>)
       = [envelope tick2 2]
   \<and> map (\<lambda>e. (price (market_data e), unat (seq (market_data e))))
        (pending (stranded_bus\<lparr>ring_buffer := (ring_buffer stranded_bus)\<lparr>read_index := 1\<rparr>\<rparr>))
       = [(101, 2)]
   \<and> process_messages [True, True, True, False] stranded_bus [] =
       Some (Inl (stranded_bus\<lparr>ring_buffer := (ring_buffer stranded_bus)\<lparr>read_index := 1\<rparr>\<rparr>,
                  [(''X'', 1)]))
   \<and> run [Subscribe ''market_data'' (cb_throw_other ''X''),
           Publish ''market_data'' tick1, Publish ''market_data'' tick2,
           Iterate, Iterate, Iterate] (system_new []) = Inl Terminated"
proof -
  let ?b0 = "subscribe ''market_data'' (cb_throw_other ''X'') MessageBus_new
               :: (string \<times> uint64_t) list MessageBus"
  have p1: "fst (publish ''market_data'' tick1 ?b0)"
    and p2: "fst (publish ''market_data'' tick2 (snd (publish ''market_data'' tick1 ?b0)))"
    by (simp_all add: publish_unfold subscribe_def MessageBus_new_def RingBuffer_new_def
        write_rb_def DEFAULT_RING_BUFFER_SIZE_def)
  have subs: "market_data_subscribers stranded_bus = [cb_throw_other ''X'']"
    by (simp add: stranded_bus_def market_data_subscribers_simps)
  have rb: "ring_buffer stranded_bus =
      \<lparr>buffer = (\<lambda>_. MessageWrapper_new)(0 := envelope tick1 1, 1 := envelope tick2 2),
       read_index = 0, write_index = 2\<rparr>"
    by (simp add: stranded_bus_def publish_unfold subscribe_def MessageBus_new_def
        RingBuffer_new_def write_rb_def DEFAULT_RING_BUFFER_SIZE_def)
  have ne: "\<not> is_empty DEFAULT_RING_BUFFER_SIZE (ring_buffer stranded_bus)"
    unfolding rb by (simp add: is_empty_def)
  have two: "[0..<2] = [0, 1]" by (simp add: upt_rec)
  have pe: "pending stranded_bus = [envelope tick1 1, envelope tick2 2]"
    by (simp add: pending_def rb_items_def rb size_rb_def DEFAULT_RING_BUFFER_SIZE_def two)
  have pe': "pending (stranded_bus\<lparr>ring_buffer := (ring_buffer stranded_bus)\<lparr>read_index := 1\<rparr>\<rparr>)
       = [envelope tick2 2]"
    by (simp add: pending_def rb_items_def rb size_rb_def DEFAULT_RING_BUFFER_SIZE_def)
  have it: "process_iteration stranded_bus [] =
       Inl (stranded_bus\<lparr>ring_buffer := (ring_buffer stranded_bus)\<lparr>read_index := 1\<rparr>\<rparr>,
            [(''X'', 1)])"
    unfolding process_iteration_not_empty [OF ne] subs
    by (simp add: rb Let_def cb_throw_other_def tick_of_def envelope_def
        DEFAULT_RING_BUFFER_SIZE_def)
  have r: "run [Subscribe ''market_data'' (cb_throw_other ''X''),
           Publish ''market_data'' tick1, Publish ''market_data'' tick2,
           Iterate, Iterate, Iterate] (system_new []) = Inl Terminated"
    using it by (simp add: step_Publish system_new_def stranded_bus_def del: step.simps(1))
  have fl: "map (\<lambda>e. (price (market_data e), unat (seq (market_data e))))
        (pending (stranded_bus\<lparr>ring_buffer := (ring_buffer stranded_bus)\<lparr>read_index := 1\<rparr>\<rparr>))
       = [(101, 2)]"
    unfolding pe' by (simp add: envelope_def tick2_def)
  from p1 p2 pe it pe' fl r show ?thesis by simp
qed

text \<open>
  Claim C1, amended. In a run from a new bus the ticks read so far, followed by the
  ticks still in the ring buffer, are the ticks of the publishes that returned true, in
  publish order: nothing is read twice, skipped or reordered. Each of them carries the
  price, volume and timestamp the caller handed over, the caller's strings cut to their
  fields, and as sequence number the number of its publish call, counted from 1, as a
  64-bit value; as numbers the sequence numbers read are strictly increasing while
  fewer than \<open>2 ^ 64\<close> publishes were called. The ticks accepted so far are all read, in
  order, at the latest after as many further passes of the loop as there are ticks
  waiting, whatever else is called in between, as long as the run does not end early.
  When no registered callback throws a value outside \<open>std::exception\<close>, the run does not
  end early, and that many passes do read every tick and leave the ring buffer empty.
\<close>

theorem fifo_delivery:
  "(run ops (system_new w) = Inr s \<longrightarrow>
      consumed s @ map tick_of (pending (bus s)) = map tick_of (accepted s)
    \<and> list_all2 (\<lambda>(d, k) t. carries d k t) (published_ticks 0 ops (system_new w))
         (consumed s @ map tick_of (pending (bus s)))
    \<and> sorted_wrt (<) (map snd (published_ticks 0 ops (system_new w)))
    \<and> set (map snd (published_ticks 0 ops (system_new w))) \<subseteq> {1..length (filter is_Publish ops)}
    \<and> (\<exists>ks. sorted_wrt (<) ks
           \<and> set ks \<subseteq> {1..length (filter is_Publish ops)}
           \<and> map (\<lambda>e. seq (market_data e)) (accepted s) = map word_of_nat ks
           \<and> map seq (consumed s) = map word_of_nat (take (length (consumed s)) ks))
    \<and> (length (filter is_Publish ops) < 2 ^ 64 \<longrightarrow>
         sorted_wrt (<) (map (\<lambda>e. unat (seq (market_data e))) (accepted s))
       \<and> sorted_wrt (<) (map (\<lambda>d. unat (seq d)) (consumed s)))
    \<and> (run ops' s = Inr s' \<and> length (pending (bus s)) \<le> length (filter is_Iterate ops') \<longrightarrow>
         take (length (accepted s)) (consumed s') = map tick_of (accepted s)
       \<and> list_all2 (\<lambda>(d, k) t. carries d k t) (published_ticks 0 ops (system_new w))
            (take (length (published_ticks 0 ops (system_new w))) (consumed s')))
    \<and> ((\<forall>x \<in> set ops. safe_op x) \<longrightarrow>
         (\<exists>s'. run (replicate (length (pending (bus s))) Iterate) s = Inr s'
               \<and> consumed s' = map tick_of (accepted s) \<and> pending (bus s') = []
               \<and> list_all2 (\<lambda>(d, k) t. carries d k t) (published_ticks 0 ops (system_new w))
                    (consumed s'))))
   \<and> ((\<forall>x \<in> set ops. safe_op x) \<longrightarrow> (\<exists>s. run ops (system_new w) = Inr s))"
proof -
  let ?P = "published_ticks 0 ops (system_new w)"
  let ?C = "\<lambda>(d, k) t. carries d k t"
  have total: "\<exists>s. run ops (system_new w) = Inr s" if "\<forall>x \<in> set ops. safe_op x"
    using run_safe_new [OF that, of w] by blast
  have nums: "sorted_wrt (<) (map snd ?P)"
    "set (map snd ?P) \<subseteq> {1..length (filter is_Publish ops)}"
    using published_ticks_numbers [of 0 ops "system_new w"] by auto
  have acc: "list_all2 ?C ?P (map tick_of (accepted s))"
    and len: "length ?P = length (accepted s)"
    if "run ops (system_new w) = Inr s"
  proof -
    show "list_all2 ?C ?P (map tick_of (accepted s))"
      unfolding run_carries [OF that] by (rule list_all2_carries)
    then show "length ?P = length (accepted s)"
      by (auto dest: list_all2_lengthD)
  qed
  have now: "list_all2 ?C ?P (consumed s @ map tick_of (pending (bus s)))"
    if "run ops (system_new w) = Inr s"
    using run_order [of ops w s] that acc [OF that] by simp
  have later: "list_all2 ?C ?P (take (length ?P) (consumed s'))"
    if "run ops (system_new w) = Inr s" and "run ops' s = Inr s'"
      and "length (pending (bus s)) \<le> length (filter is_Iterate ops')"
    using run_order [of ops w s ops' s'] that acc [OF that(1)] len [OF that(1)] by simp
  have drain: "\<exists>s'. run (replicate (length (pending (bus s))) Iterate) s = Inr s'
               \<and> consumed s' = map tick_of (accepted s) \<and> pending (bus s') = []
               \<and> list_all2 ?C ?P (consumed s')"
    if "run ops (system_new w) = Inr s" and "\<forall>x \<in> set ops. safe_op x"
    using run_drain [OF that] acc [OF that(1)] by auto
  from run_order [of ops w s ops' s'] run_call_numbers [of ops w s] total nums now later drain
  show ?thesis by blast
qed

text \<open>
  An instance: two publishes and one pass, then two more passes. The ticks read are the
  caller's two ticks, the second with its symbol cut to 15 characters.
\<close>

theorem fifo_delivery_witness:
  "\<exists>s s'.
     run [Subscribe ''market_data'' (cb_log ''A''),
          Publish ''market_data'' tick1, Publish ''market_data'' tick2, Iterate] (system_new []) = Inr s
   \<and> run [Iterate, Iterate] s = Inr s'
   \<and> published_ticks 0 [Subscribe ''market_data'' (cb_log ''A''),
          Publish ''market_data'' tick1, Publish ''market_data'' tick2, Iterate] (system_new [])
       = [(tick1, 1), (tick2, 2)]
   \<and> accepted s = [envelope tick1 1, envelope tick2 2]
   \<and> consumed s = [tick_of (envelope tick1 1)]
   \<and> pending (bus s) = [envelope tick2 2]
   \<and> consumed s' = [tick_of (envelope tick1 1), tick_of (envelope tick2 2)]
   \<and> map (\<lambda>d. unat (seq d)) (consumed s') = [1, 2]
   \<and> map price (consumed s') = [100, 101]
   \<and> map volume (consumed s') = [1000, 2000]
   \<and> map timestamp (consumed s') = [17, 18]
   \<and> map (\<lambda>d. c_str (symbol d)) (consumed s') = [''TEST'', ''ABCDEFGHIJKLMNO'']
   \<and> run (replicate (length (pending (bus s))) Iterate) s = run [Iterate] s
   \<and> (\<exists>s''. run [Iterate] s = Inr s'' \<and> pending (bus s'') = []
          \<and> consumed s'' = [tick_of (envelope tick1 1), tick_of (envelope tick2 2)])"
proof -
  let ?ops = "[Subscribe ''market_data'' (cb_log ''A''),
          Publish ''market_data'' tick1, Publish ''market_data'' tick2, Iterate]
          :: (string \<times> uint64_t) list op list"
  let ?ops' = "[Iterate, Iterate] :: (string \<times> uint64_t) list op list"
  have safe: "\<forall>x \<in> set ?ops. safe_op x"
    by (simp add: safe_callback_def cb_log_def)
  from fifo_delivery [of ?ops "[]" _ ?ops'] safe
  obtain s where s: "run ?ops (system_new []) = Inr s"
    by blast
  from s have a: "accepted s = [envelope tick1 1, envelope tick2 2]"
    and c: "consumed s = [tick_of (envelope tick1 1)]"
    and rb: "ring_buffer (bus s) =
      \<lparr>buffer = (\<lambda>_. MessageWrapper_new)(0 := envelope tick1 1, 1 := envelope tick2 2),
       read_index = 1, write_index = 2\<rparr>"
    and subs: "subscribers (bus s) = [''market_data'' \<mapsto> [cb_log ''A'']]"
    by (auto simp: system_new_def MessageBus_new_def RingBuffer_new_def publish_unfold write_rb_def
        process_iteration_def read_rb_def subscribe_def DEFAULT_RING_BUFFER_SIZE_def Let_def
        MessageType_only [of "type _"] cb_log_def)
  have P: "published_ticks 0 ?ops (system_new []) = [(tick1, 1), (tick2, 2)]"
    by (simp add: system_new_def MessageBus_new_def RingBuffer_new_def publish_unfold write_rb_def
        process_iteration_def read_rb_def subscribe_def DEFAULT_RING_BUFFER_SIZE_def Let_def
        MessageType_only [of "type _"] cb_log_def)
  obtain s' where s': "run ?ops' s = Inr s'" and l: "length (consumed s') = 2"
    by (simp add: process_iteration_def read_rb_def DEFAULT_RING_BUFFER_SIZE_def Let_def
        MessageType_only [of "type _"] rb subs c cb_log_def)
  note A = fifo_delivery [of ?ops "[]" s ?ops' s', unfolded P]
  from A s have f: "consumed s @ map tick_of (pending (bus s)) = map tick_of (accepted s)"
    by blast
  have p': "pending (bus s) = [envelope tick2 2]"
    by (simp add: pending_def rb_items_def rb size_rb_def DEFAULT_RING_BUFFER_SIZE_def)
  then have enough: "length (pending (bus s)) \<le> length (filter is_Iterate ?ops')" by simp
  from A s s' enough
  have t: "take (length (accepted s)) (consumed s') = map tick_of (accepted s)"
    and ca: "list_all2 (\<lambda>(d, k) t. carries d k t) [(tick1, 1), (tick2, 2)]
            (take (length [(tick1, 1::nat), (tick2, 2)]) (consumed s'))"
    by blast+
  have "length (filter is_Publish ?ops) < 2 ^ 64" by simp
  with A s have "sorted_wrt (<) (map (\<lambda>d. unat (seq d)) (consumed s))" by blast
  from t l have c': "consumed s' = [tick_of (envelope tick1 1), tick_of (envelope tick2 2)]"
    by (simp add: a)
  from ca l obtain t1 t2 where cs: "consumed s' = [t1, t2]"
    and c1: "carries tick1 1 t1" and c2: "carries tick2 2 t2"
    by (auto simp: list_all2_Cons1)
  have m: "map (\<lambda>d. unat (seq d)) (consumed s') = [1, 2]"
    and mp: "map price (consumed s') = [100, 101]"
    and mv: "map volume (consumed s') = [1000, 2000]"
    and mt: "map timestamp (consumed s') = [17, 18]"
    using c1 c2 by (simp_all add: cs carries_def tick1_def tick2_def)
  have cstr: "c_str (symbol tick1) = ''TEST''" "c_str (symbol tick2) = ''ABCDEFGHIJKLMNOP''"
    by (simp_all add: tick1_def tick2_def c_str_def NUL_def)
  have ms: "map (\<lambda>d. c_str (symbol d)) (consumed s') = [''TEST'', ''ABCDEFGHIJKLMNO'']"
    using c1 c2 by (simp add: cs carries_def cstr) (simp add: c_str_def NUL_def)
  have rep: "run (replicate (length (pending (bus s))) Iterate) s = run [Iterate] s"
    by (simp add: p')
  from A s safe obtain s'' where
    "run (replicate (length (pending (bus s))) Iterate) s = Inr s''"
    "consumed s'' = map tick_of (accepted s)" "pending (bus s'') = []"
    by blast
  then have d: "\<exists>s''. run [Iterate] s = Inr s'' \<and> pending (bus s'') = []
          \<and> consumed s'' = [tick_of (envelope tick1 1), tick_of (envelope tick2 2)]"
    by (simp only: rep a list.map) blast
  show ?thesis
    by (intro exI [of _ s] exI [of _ s'] conjI s s' P a c p' c' m mp mv mt ms rep d)
qed

end
